theory Spec2Isabelle
  imports Main "HOL-Library.Multiset" "HOL-Library.Sublist"
begin

section \<open>Rect, Sprite and Sheet\<close>

text \<open>
  \<^verbatim>\<open>layouts.py\<close> imports \<^verbatim>\<open>Rect\<close> from the module \<^verbatim>\<open>spritesheet\<close>, which also
  provides the sprites and the sheet the layouts work on. That module is not among the
  sources, so the definitions of this section follow the specification's data model.
  Python integers are unbounded: coordinates are \<^typ>\<open>int\<close>.
\<close>

record rect =
  rx :: int
  ry :: int
  rw :: int
  rh :: int

text \<open>Modelled from the spec: the constructor of \<^verbatim>\<open>Rect\<close>, absent from the sources. The
  argument order \<^verbatim>\<open>Rect(w, h, x, y)\<close> with \<^verbatim>\<open>x = y = 0\<close> by default is the one the calls
  \<^verbatim>\<open>Rect(w, h)\<close> and \<^verbatim>\<open>Rect(rect.w, rect.h, free.x, free.y)\<close> of \<^verbatim>\<open>layouts.py\<close> use.\<close>

definition Rect :: "int \<Rightarrow> int \<Rightarrow> int \<Rightarrow> int \<Rightarrow> rect" where
  "Rect w h x y = \<lparr>rx = x, ry = y, rw = w, rh = h\<rparr>"

text \<open>Modelled from the spec: the derived attributes \<^verbatim>\<open>right = x + w\<close> and
  \<^verbatim>\<open>bottom = y + h\<close> of \<^verbatim>\<open>Rect\<close>.\<close>

definition right :: "rect \<Rightarrow> int" where
  "right r = rx r + rw r"

definition bottom :: "rect \<Rightarrow> int" where
  "bottom r = ry r + rh r"

text \<open>Modelled from the spec: \<^verbatim>\<open>Rect.intersects\<close>, absent from the sources:
  \<^verbatim>\<open>a.x < b.right and b.x < a.right and a.y < b.bottom and b.y < a.bottom\<close>.\<close>

definition intersects :: "rect \<Rightarrow> rect \<Rightarrow> bool" where
  "intersects a b \<longleftrightarrow>
     rx a < right b \<and> rx b < right a \<and> ry a < bottom b \<and> ry b < bottom a"

text \<open>Modelled from the spec: \<^verbatim>\<open>Rect.contains\<close>, absent from the sources: all four
  corners of \<open>b\<close> lie in the closed region of \<open>a\<close>.\<close>

definition in_closed :: "rect \<Rightarrow> int \<Rightarrow> int \<Rightarrow> bool" where
  "in_closed a px py \<longleftrightarrow> rx a \<le> px \<and> px \<le> right a \<and> ry a \<le> py \<and> py \<le> bottom a"

definition contains :: "rect \<Rightarrow> rect \<Rightarrow> bool" where
  "contains a b \<longleftrightarrow>
     in_closed a (rx b) (ry b) \<and> in_closed a (right b) (ry b) \<and>
     in_closed a (rx b) (bottom b) \<and> in_closed a (right b) (bottom b)"

text \<open>Modelled from the spec: the sprite class, absent from the sources: a Rect plus the
  flag \<^verbatim>\<open>rotated\<close>. The attributes \<^verbatim>\<open>left\<close>, \<^verbatim>\<open>top\<close>, \<^verbatim>\<open>width\<close>, \<^verbatim>\<open>height\<close> that
  the shelf and stack code uses are \<^verbatim>\<open>x\<close>, \<^verbatim>\<open>y\<close>, \<^verbatim>\<open>w\<close>, \<^verbatim>\<open>h\<close>. A sprite is a
  mutable Python object; \<open>ident\<close> stands for the identity of the object, which no
  operation changes.\<close>

record sprite =
  box :: rect
  rotated :: bool
  ident :: nat

text \<open>Modelled from the spec: \<^verbatim>\<open>rotate()\<close> swaps \<^verbatim>\<open>w\<close> and \<^verbatim>\<open>h\<close> and flips
  \<^verbatim>\<open>rotated\<close>.\<close>

definition sprite_rotate :: "sprite \<Rightarrow> sprite" where
  "sprite_rotate s =
     s\<lparr>box := (box s)\<lparr>rw := rh (box s), rh := rw (box s)\<rparr>, rotated := \<not> rotated s\<rparr>"

text \<open>Modelled from the spec: the sheet context, absent from the sources:
  \<^verbatim>\<open>size = (maxW, maxH)\<close>, the flag \<^verbatim>\<open>rotate\<close>, and \<^verbatim>\<open>check(r)\<close>, which validates a
  placement against the bin bounds and any user-supplied exclusion. The exclusion is the
  parameter \<open>sheet_exclude\<close>.\<close>

record sheet =
  sheet_size :: "int \<times> int"
  sheet_rotate :: bool
  sheet_exclude :: "rect \<Rightarrow> bool"

definition in_bin :: "sheet \<Rightarrow> rect \<Rightarrow> bool" where
  "in_bin sh r \<longleftrightarrow>
     0 \<le> rx r \<and> 0 \<le> ry r \<and> right r \<le> fst (sheet_size sh) \<and> bottom r \<le> snd (sheet_size sh)"

definition check :: "sheet \<Rightarrow> rect \<Rightarrow> bool" where
  "check sh r \<longleftrightarrow> in_bin sh r \<and> \<not> sheet_exclude sh r"

text \<open>The exceptions that the code of \<^verbatim>\<open>layouts.py\<close> can raise.\<close>

datatype error = NameError | IndexError | UnboundLocalError | NotImplementedError

section \<open>The shared driver \<^verbatim>\<open>Layout.add\<close>\<close>

text \<open>
  A strategy is its two methods. \<^verbatim>\<open>get_best\<close> may rotate the sprites of the list it is
  given, so it returns the list as it has left it, and the choice
  \<^verbatim>\<open>(i, pos, rot)\<close> or \<open>None\<close> for \<^verbatim>\<open>(None, None, None)\<close>. \<^verbatim>\<open>place\<close> returns its
  boolean, the new state of the layout and the sprite as it has left it.
\<close>

type_synonym ('st, 'pos) get_best =
  "'st \<Rightarrow> sprite list \<Rightarrow> sprite list \<times> (nat \<times> 'pos \<times> bool) option"

type_synonym ('st, 'pos) place =
  "'st \<Rightarrow> sprite \<Rightarrow> 'pos \<Rightarrow> bool \<Rightarrow> bool \<times> 'st \<times> sprite"

text \<open>\<^verbatim>\<open>remain.pop(i)\<close>, for an index in range.\<close>

definition pop :: "nat \<Rightarrow> 'a list \<Rightarrow> 'a list" where
  "pop i xs = take i xs @ drop (Suc i) xs"

text \<open>
  One run of the body of the \<^verbatim>\<open>while remain:\<close> loop, on the variables \<^verbatim>\<open>placed\<close>
  and \<^verbatim>\<open>remain\<close>: it goes on to the next turn, leaves the loop through \<^verbatim>\<open>break\<close>, or
  raises. \<^verbatim>\<open>remain[i]\<close> and \<^verbatim>\<open>remain.pop(i)\<close> raise \<^verbatim>\<open>IndexError\<close> for an index
  past the end.
\<close>

datatype 'st outcome =
  Continue 'st "sprite list" "sprite list"
| Break 'st "sprite list" "sprite list"
| Raise error

definition add_body :: "('st, 'pos) get_best \<Rightarrow> ('st, 'pos) place \<Rightarrow> 'st \<Rightarrow>
    sprite list \<Rightarrow> sprite list \<Rightarrow> 'st outcome" where
  "add_body gb pl st placed remain =
     (case gb st remain of
        (remain1, None) \<Rightarrow> Break st placed remain1
      | (remain1, Some (i, pos, rot)) \<Rightarrow>
          if length remain1 \<le> i then Raise IndexError
          else (case pl st (remain1 ! i) pos rot of
              (True, st1, spr) \<Rightarrow> Continue st1 (placed @ [spr]) (pop i (remain1[i := spr]))
            | (False, st1, spr) \<Rightarrow> Break st1 placed (remain1[i := spr])))"

text \<open>
  The loop. The first argument bounds the number of times the body may run; \<open>None\<close>
  says that the bound was reached with sprites still to treat. The result is the state of
  the layout and the pair \<^verbatim>\<open>(placed, remain)\<close> that \<^verbatim>\<open>add\<close> returns.
\<close>

fun add_loop :: "('st, 'pos) get_best \<Rightarrow> ('st, 'pos) place \<Rightarrow> nat \<Rightarrow> 'st \<Rightarrow>
    sprite list \<Rightarrow> sprite list \<Rightarrow> (error + 'st \<times> sprite list \<times> sprite list) option" where
  "add_loop gb pl 0 st placed remain =
     (if remain = [] then Some (Inr (st, placed, remain)) else None)"
| "add_loop gb pl (Suc n) st placed remain =
     (if remain = [] then Some (Inr (st, placed, remain))
      else case add_body gb pl st placed remain of
        Continue st1 placed1 remain1 \<Rightarrow> add_loop gb pl n st1 placed1 remain1
      | Break st1 placed1 remain1 \<Rightarrow> Some (Inr (st1, placed1, remain1))
      | Raise e \<Rightarrow> Some (Inl e))"

text \<open>\<^verbatim>\<open>Layout.add\<close>: the loop may run its body once for every sprite of the input.\<close>

definition Layout_add :: "('st, 'pos) get_best \<Rightarrow> ('st, 'pos) place \<Rightarrow> 'st \<Rightarrow>
    sprite list \<Rightarrow> (error + 'st \<times> sprite list \<times> sprite list) option" where
  "Layout_add gb pl st sprites = add_loop gb pl (length sprites) st [] sprites"

section \<open>MaxRectsLayout\<close>

record maxrects =
  used_rects :: "rect list"
  free_rects :: "rect list"
  debug_image_count :: nat

definition MaxRects_clear :: "sheet \<Rightarrow> maxrects" where
  "MaxRects_clear sh =
     \<lparr>used_rects = [],
      free_rects = [Rect (fst (sheet_size sh)) (snd (sheet_size sh)) 0 0],
      debug_image_count = 0\<rparr>"

text \<open>
  \<^verbatim>\<open>search\<close>: the variables \<^verbatim>\<open>best\<close>, \<^verbatim>\<open>bssf\<close>, \<^verbatim>\<open>blsf\<close> are assigned together, so
  they are one optional triple; \<^verbatim>\<open>rotate\<close> is the second component.
\<close>

type_synonym found = "(rect \<times> int \<times> int) option \<times> bool"

definition improves :: "(rect \<times> int \<times> int) option \<Rightarrow> int \<Rightarrow> int \<Rightarrow> bool" where
  "improves best ssf lsf =
     (case best of None \<Rightarrow> True
      | Some (b, bssf, blsf) \<Rightarrow> ssf < bssf \<or> (ssf = bssf \<and> lsf < blsf))"

definition search_step :: "sheet \<Rightarrow> rect \<Rightarrow> found \<Rightarrow> rect \<Rightarrow> found" where
  "search_step sh rect acc free =
     (let acc1 =
        (if rw rect \<le> rw free \<and> rh rect \<le> rh free then
           (let dx = rw free - rw rect; dy = rh free - rh rect;
                ssf = min dx dy; lsf = max dx dy
            in if improves (fst acc) ssf lsf
               then (Some (Rect (rw rect) (rh rect) (rx free) (ry free), ssf, lsf), snd acc)
               else acc)
         else acc)
      in if sheet_rotate sh \<and> rw rect \<le> rh free \<and> rh rect \<le> rw free then
           (let dx = rw free - rh rect; dy = rh free - rw rect;
                ssf = min dx dy; lsf = max dx dy
            in if improves (fst acc1) ssf lsf
               then (Some (Rect (rh rect) (rw rect) (rx free) (ry free), ssf, lsf), True)
               else acc1)
         else acc1)"

definition MaxRects_search :: "sheet \<Rightarrow> maxrects \<Rightarrow> rect \<Rightarrow> found" where
  "MaxRects_search sh st rect = foldl (search_step sh rect) (None, False) (free_rects st)"

text \<open>
  \<^verbatim>\<open>split\<close> appends the new nodes to \<^verbatim>\<open>self.free_rects\<close>; the list is its first
  argument and is returned with the boolean.
\<close>

definition MaxRects_split :: "rect list \<Rightarrow> rect \<Rightarrow> rect \<Rightarrow> bool \<times> rect list" where
  "MaxRects_split fs free rect =
     (if rx free + rw free \<le> rx rect \<or> rx rect + rw rect \<le> rx free \<or>
         ry free + rh free \<le> ry rect \<or> ry rect + rh rect \<le> ry free
      then (False, fs)
      else
        (let fs1 =
           (if rx rect < rx free + rw free \<and> rx free < rx rect + rw rect then
              (let fsa = (if ry free < ry rect \<and> ry rect < ry free + rh free
                          then fs @ [free\<lparr>rh := ry rect - ry free\<rparr>] else fs)
               in if ry rect + rh rect < ry free + rh free
                  then fsa @ [free\<lparr>ry := ry rect + rh rect,
                                   rh := ry free + rh free - (ry rect + rh rect)\<rparr>]
                  else fsa)
            else fs);
             fs2 =
           (if ry rect < ry free + rh free \<and> ry free < ry rect + rh rect then
              (let fsa = (if rx free < rx rect \<and> rx rect < rx free + rw free
                          then fs1 @ [free\<lparr>rw := rx rect - rx free\<rparr>] else fs1)
               in if rx rect + rw rect < rx free + rw free
                  then fsa @ [free\<lparr>rx := rx rect + rw rect,
                                   rw := rx free + rw free - (rx rect + rw rect)\<rparr>]
                  else fsa)
            else fs1)
         in (True, fs2)))"

text \<open>
  \<^verbatim>\<open>get_best\<close>: \<^verbatim>\<open>best\<close> and \<^verbatim>\<open>best_score\<close> are assigned together and are one optional
  pair. The loop over \<^verbatim>\<open>enumerate(sprites)\<close> is a recursion on the list that carries the
  index; a sprite that the loop rotates stays rotated in the list. In the test
  \<^verbatim>\<open>pos and self.sheet.check(pos)\<close> the position is \<^verbatim>\<open>None\<close> or a \<^verbatim>\<open>Rect\<close>, and a
  \<^verbatim>\<open>Rect\<close> counts as true, as an object of a plain class does.
\<close>

type_synonym 'pos best = "((nat \<times> 'pos \<times> bool) \<times> int \<times> int) option"

definition tuple_less :: "int \<times> int \<Rightarrow> int \<times> int \<Rightarrow> bool" where
  "tuple_less a b \<longleftrightarrow> fst a < fst b \<or> (fst a = fst b \<and> snd a < snd b)"

definition MaxRects_get_best_step :: "sheet \<Rightarrow> maxrects \<Rightarrow> nat \<Rightarrow> sprite \<Rightarrow> rect best \<Rightarrow>
    sprite \<times> rect best" where
  "MaxRects_get_best_step sh st i spr best =
     (case MaxRects_search sh st (box spr) of
        (None, rot) \<Rightarrow> (spr, best)
      | (Some (pos, bssf, blsf), rot) \<Rightarrow>
          if \<not> check sh pos then (spr, best)
          else if rot \<and> \<not> sheet_rotate sh then (spr, best)
          else
            (let spr1 = (if rot then sprite_rotate spr else spr)
             in if (case best of None \<Rightarrow> True
                    | Some (b, best_score) \<Rightarrow> tuple_less (bssf, blsf) best_score)
                then (spr1, Some ((i, pos, rotated spr1), (bssf, blsf)))
                else (spr1, best)))"

fun MaxRects_get_best_loop :: "sheet \<Rightarrow> maxrects \<Rightarrow> nat \<Rightarrow> sprite list \<Rightarrow> rect best \<Rightarrow>
    sprite list \<times> rect best" where
  "MaxRects_get_best_loop sh st i [] best = ([], best)"
| "MaxRects_get_best_loop sh st i (spr # sprites) best =
     (case MaxRects_get_best_step sh st i spr best of
        (spr1, best1) \<Rightarrow>
          (case MaxRects_get_best_loop sh st (Suc i) sprites best1 of
             (sprites1, best2) \<Rightarrow> (spr1 # sprites1, best2)))"

definition MaxRects_get_best :: "sheet \<Rightarrow> (maxrects, rect) get_best" where
  "MaxRects_get_best sh st sprites =
     (case MaxRects_get_best_loop sh st 0 sprites None of
        (sprites1, best) \<Rightarrow> (sprites1, map_option fst best))"

text \<open>
  \<^verbatim>\<open>place\<close>. The loop \<^verbatim>\<open>for i, free in reversed(list(enumerate(self.free_rects)))\<close>
  visits the indices of the list as it was before the loop, from the last to the first;
  \<open>split_loop rect i fs\<close> has the indices below \<open>i\<close> still to visit. The nodes that
  \<^verbatim>\<open>split\<close> appends come after them, and \<^verbatim>\<open>pop(i)\<close> moves none of them.
\<close>

fun split_loop :: "rect \<Rightarrow> nat \<Rightarrow> rect list \<Rightarrow> rect list" where
  "split_loop rect 0 fs = fs"
| "split_loop rect (Suc i) fs =
     (if intersects (fs ! i) rect then
        (case MaxRects_split fs (fs ! i) rect of
           (True, fs1) \<Rightarrow> split_loop rect i (pop i fs1)
         | (False, fs1) \<Rightarrow> split_loop rect i fs1)
      else split_loop rect i fs)"

text \<open>Modelled from the spec: \<^verbatim>\<open>free1 != free2\<close> on two \<^verbatim>\<open>Rect\<close> objects. The class
  is absent from the sources; the specification says that the source compares by identity,
  which for the entries of a list is their position.\<close>

definition dominated :: "rect list \<Rightarrow> nat \<Rightarrow> bool" where
  "dominated fs j \<longleftrightarrow>
     list_ex (\<lambda>i. i \<noteq> j \<and> contains (fs ! i) (fs ! j)) [0 ..< length fs]"

definition prune :: "rect list \<Rightarrow> rect list" where
  "prune fs = map (\<lambda>j. fs ! j) (filter (\<lambda>j. \<not> dominated fs j) [0 ..< length fs])"

definition MaxRects_place :: "sheet \<Rightarrow> (maxrects, rect) place" where
  "MaxRects_place sh st sprite position rot =
     (let sprite1 = sprite\<lparr>box := (box sprite)\<lparr>rx := rx position, ry := ry position\<rparr>\<rparr>
      in if \<not> check sh (box sprite1) then (False, st, sprite1)
         else
           (let sprite2 = (if rotated sprite1 \<noteq> rot then sprite_rotate sprite1 else sprite1);
                fs1 = split_loop (box sprite2) (length (free_rects st)) (free_rects st)
            in (True, st\<lparr>free_rects := prune fs1\<rparr>, sprite2)))"

definition MaxRects_add :: "sheet \<Rightarrow> maxrects \<Rightarrow> sprite list \<Rightarrow>
    (error + maxrects \<times> sprite list \<times> sprite list) option" where
  "MaxRects_add sh = Layout_add (MaxRects_get_best sh) (MaxRects_place sh)"

section \<open>ShelfLayout\<close>

text \<open>The class \<^verbatim>\<open>ShelfLayout.Shelf\<close>: \<^verbatim>\<open>start\<close>, \<^verbatim>\<open>size\<close>, \<^verbatim>\<open>max\<close> and
  \<^verbatim>\<open>rects\<close>. The list \<^verbatim>\<open>rects\<close> holds the sprites placed on the shelf, as
  \<^verbatim>\<open>Shelf.place\<close> leaves them.\<close>

record shelf =
  shelf_start :: int
  shelf_size :: int
  shelf_max :: int
  shelf_rects :: "sprite list"

definition Shelf :: "int \<Rightarrow> shelf" where
  "Shelf start = \<lparr>shelf_start = start, shelf_size = 0, shelf_max = 0, shelf_rects = []\<rparr>"

definition Shelf_place :: "shelf \<Rightarrow> sprite \<Rightarrow> shelf \<times> sprite" where
  "Shelf_place s rect =
     (let rect1 = rect\<lparr>box := (box rect)\<lparr>rx := shelf_size s, ry := shelf_start s\<rparr>\<rparr>
      in (s\<lparr>shelf_rects := shelf_rects s @ [rect1],
            shelf_size := shelf_size s + rw (box rect1),
            shelf_max := (if shelf_max s < rh (box rect1) then rh (box rect1) else shelf_max s)\<rparr>,
          rect1))"

record shelflayout =
  layout_size :: int
  shelves :: "shelf list"

definition ShelfLayout_clear :: shelflayout where
  "ShelfLayout_clear = \<lparr>layout_size = 0, shelves = []\<rparr>"

text \<open>
  The position that \<^verbatim>\<open>get_best\<close> returns is a shelf object: one of \<^verbatim>\<open>self.shelves\<close>,
  here the index it has in that list, or a new \<^verbatim>\<open>Shelf\<close> that is in no list yet.
  \<^verbatim>\<open>shelf not in self.shelves\<close> compares objects of a class without \<^verbatim>\<open>__eq__\<close>, that
  is by identity, and tells the two cases apart.
\<close>

datatype shelf_pos = Existing nat | Fresh shelf

text \<open>The loop \<^verbatim>\<open>for shelf in self.shelves\<close> for one sprite: the sprite, which the loop
  may rotate, and \<^verbatim>\<open>best_shelf\<close>. \<open>k\<close> is the index of the shelf.\<close>

definition shelf_step :: "sheet \<Rightarrow> sprite \<times> (shelf_pos \<times> int) option \<Rightarrow> nat \<times> shelf \<Rightarrow>
    sprite \<times> (shelf_pos \<times> int) option" where
  "shelf_step sh acc ks =
     (let maxw = fst (sheet_size sh); k = fst ks; s = snd ks;
          spr = (if sheet_rotate sh \<and> rh (box (fst acc)) < rw (box (fst acc)) \<and>
                    rw (box (fst acc)) \<le> shelf_max s
                 then sprite_rotate (fst acc) else fst acc);
          best_shelf = snd acc
      in if shelf_size s + rw (box spr) \<le> maxw \<and> rh (box spr) \<le> shelf_max s then
           (let score = (maxw - shelf_size s - rw (box spr)) * shelf_max s +
                        rw (box spr) * (shelf_max s - rh (box spr))
            in if (case best_shelf of None \<Rightarrow> True | Some (b, bscore) \<Rightarrow> score < bscore)
               then (spr, Some (Existing k, score))
               else (spr, best_shelf))
         else (spr, best_shelf))"

type_synonym shelf_best = "((nat \<times> shelf_pos \<times> bool) \<times> int) option"

definition ShelfLayout_get_best_step :: "sheet \<Rightarrow> shelflayout \<Rightarrow> nat \<Rightarrow> sprite \<Rightarrow>
    shelf_best \<Rightarrow> sprite \<times> shelf_best" where
  "ShelfLayout_get_best_step sh st i spr0 best =
     (let maxw = fst (sheet_size sh); maxh = snd (sheet_size sh)
      in if maxw < rw (box spr0) \<or> maxh < rh (box spr0) then (spr0, best)
         else
           (case foldl (shelf_step sh) (spr0, None) (enumerate 0 (shelves st)) of
              (spr1, best_shelf1) \<Rightarrow>
                (let spr2 = (if best_shelf1 = None \<and> sheet_rotate sh \<and>
                                rw (box spr1) < rh (box spr1)
                             then sprite_rotate spr1 else spr1)
                 in if best_shelf1 = None \<and> shelves st \<noteq> [] \<and>
                       maxh < layout_size st + rh (box spr2)
                    then (spr2, best)
                    else
                      (let best_shelf =
                         (case best_shelf1 of
                            None \<Rightarrow> (Fresh (Shelf (layout_size st)),
                                     (maxw - rw (box spr2)) * rh (box spr2))
                          | Some b \<Rightarrow> b)
                       in if (case best of None \<Rightarrow> True
                              | Some (b, best_score) \<Rightarrow> snd best_shelf < best_score)
                          then (spr2, Some ((i, fst best_shelf, rotated spr2), snd best_shelf))
                          else (spr2, best)))))"

fun ShelfLayout_get_best_loop :: "sheet \<Rightarrow> shelflayout \<Rightarrow> nat \<Rightarrow> sprite list \<Rightarrow>
    shelf_best \<Rightarrow> sprite list \<times> shelf_best" where
  "ShelfLayout_get_best_loop sh st i [] best = ([], best)"
| "ShelfLayout_get_best_loop sh st i (spr # sprites) best =
     (case ShelfLayout_get_best_step sh st i spr best of
        (spr1, best1) \<Rightarrow>
          (case ShelfLayout_get_best_loop sh st (Suc i) sprites best1 of
             (sprites1, best2) \<Rightarrow> (spr1 # sprites1, best2)))"

definition ShelfLayout_get_best :: "sheet \<Rightarrow> (shelflayout, shelf_pos) get_best" where
  "ShelfLayout_get_best sh st sprites =
     (case ShelfLayout_get_best_loop sh st 0 sprites None of
        (sprites1, best) \<Rightarrow> (sprites1, map_option fst best))"

text \<open>\<^verbatim>\<open>ShelfLayout.place\<close>. An index \<open>Existing k\<close> comes from \<^verbatim>\<open>get_best\<close> on the same
  state and is in range.\<close>

definition ShelfLayout_place :: "(shelflayout, shelf_pos) place" where
  "ShelfLayout_place st sprite pos rot =
     (let sprite1 = (if rotated sprite \<noteq> rot then sprite_rotate sprite else sprite)
      in case pos of
           Existing k \<Rightarrow>
             (case Shelf_place (shelves st ! k) sprite1 of
                (s, sprite2) \<Rightarrow>
                  (True,
                   st\<lparr>layout_size := max (layout_size st) (shelf_start s + shelf_max s),
                      shelves := (shelves st)[k := s]\<rparr>,
                   sprite2))
         | Fresh s0 \<Rightarrow>
             (case Shelf_place s0 sprite1 of
                (s, sprite2) \<Rightarrow>
                  (True,
                   st\<lparr>layout_size := max (layout_size st) (shelf_start s + shelf_max s),
                      shelves := shelves st @ [s]\<rparr>,
                   sprite2)))"

definition ShelfLayout_add :: "sheet \<Rightarrow> shelflayout \<Rightarrow> sprite list \<Rightarrow>
    (error + shelflayout \<times> sprite list \<times> sprite list) option" where
  "ShelfLayout_add sh = Layout_add (ShelfLayout_get_best sh) ShelfLayout_place"

section \<open>StackLayout\<close>

text \<open>The class \<^verbatim>\<open>StackLayout.Stack\<close>, the transpose of \<^verbatim>\<open>Shelf\<close>.\<close>

record stack =
  stack_start :: int
  stack_size :: int
  stack_max :: int
  stack_rects :: "sprite list"

definition Stack :: "int \<Rightarrow> stack" where
  "Stack start = \<lparr>stack_start = start, stack_size = 0, stack_max = 0, stack_rects = []\<rparr>"

definition Stack_place :: "stack \<Rightarrow> sprite \<Rightarrow> stack \<times> sprite" where
  "Stack_place s rect =
     (let rect1 = rect\<lparr>box := (box rect)\<lparr>rx := stack_start s, ry := stack_size s\<rparr>\<rparr>
      in (s\<lparr>stack_rects := stack_rects s @ [rect1],
            stack_size := stack_size s + rh (box rect1),
            stack_max := (if stack_max s < rw (box rect1) then rw (box rect1) else stack_max s)\<rparr>,
          rect1))"

record stacklayout =
  stacks_size :: int
  stacks :: "stack list"

definition StackLayout_clear :: stacklayout where
  "StackLayout_clear = \<lparr>stacks_size = 0, stacks = []\<rparr>"

text \<open>
  The local variables of \<^verbatim>\<open>StackLayout.add\<close> that the loop \<^verbatim>\<open>for st in self.stacks\<close>
  assigns: \<^verbatim>\<open>best\<close>, \<^verbatim>\<open>stack\<close> (the index of the chosen stack) and, assigned
  together on every turn, \<^verbatim>\<open>tw\<close>, \<^verbatim>\<open>th\<close>, \<^verbatim>\<open>rotated\<close>, which are unbound (\<open>None\<close>)
  before the first turn. The condition of the loop's first \<^verbatim>\<open>if\<close> reads \<^verbatim>\<open>sh.max\<close>,
  and no variable \<^verbatim>\<open>sh\<close> exists in the function or the module: once
  \<^verbatim>\<open>self.sheet.rotate and (h > w)\<close> holds, evaluating it raises \<^verbatim>\<open>NameError\<close>.
\<close>

record stack_locals =
  loc_best :: "int option"
  loc_stack :: "nat option"
  loc_t :: "(int \<times> int \<times> bool) option"

definition stack_step :: "sheet \<Rightarrow> int \<Rightarrow> int \<Rightarrow> error + stack_locals \<Rightarrow> nat \<times> stack \<Rightarrow>
    error + stack_locals" where
  "stack_step sh w h acc ks =
     (case acc of
        Inl e \<Rightarrow> Inl e
      | Inr l \<Rightarrow>
          if sheet_rotate sh \<and> w < h then Inl NameError
          else
            (let maxh = snd (sheet_size sh); k = fst ks; st = snd ks;
                 tw = w; th = h;
                 l1 = l\<lparr>loc_t := Some (tw, th, False)\<rparr>
             in if stack_size st + th \<le> maxh \<and> tw \<le> stack_max st then
                  (let score = (maxh - stack_size st - th) * stack_max st +
                               th * (stack_max st - tw)
                   in if (case loc_best l1 of None \<Rightarrow> True | Some b \<Rightarrow> score < b)
                      then Inr (l1\<lparr>loc_best := Some score, loc_stack := Some k\<rparr>)
                      else Inr l1)
                else Inr l1))"

definition StackLayout_add :: "sheet \<Rightarrow> stacklayout \<Rightarrow> sprite \<Rightarrow>
    error + bool \<times> stacklayout \<times> sprite" where
  "StackLayout_add sh self spr =
     (let w = rw (box spr); h = rh (box spr);
          maxw = fst (sheet_size sh); maxh = snd (sheet_size sh)
      in if maxw < w \<or> maxh < h then Inr (False, self, spr)
         else
           (case foldl (stack_step sh w h)
                   (Inr \<lparr>loc_best = None, loc_stack = None, loc_t = None\<rparr>)
                   (enumerate 0 (stacks self)) of
              Inl e \<Rightarrow> Inl e
            | Inr l \<Rightarrow>
                (case loc_stack l of
                   None \<Rightarrow>
                     \<comment> \<open>No room in existing stacks\<close>
                     if stacks self = [] then
                       (case Stack_place (Stack (stacks_size self)) spr of
                          (s, spr1) \<Rightarrow>
                            Inr (True,
                                 self\<lparr>stacks := stacks self @ [s],
                                      stacks_size := max (stacks_size self)
                                                        (stack_start s + stack_max s)\<rparr>,
                                 spr1))
                     else
                       (case loc_t l of
                          None \<Rightarrow> Inl UnboundLocalError
                        | Some (tw, th, r) \<Rightarrow>
                            if maxw < stacks_size self + tw then Inr (False, self, spr)
                            else
                              (case Stack_place (Stack (stacks_size self)) spr of
                                 (s, spr1) \<Rightarrow>
                                   Inr (True,
                                        self\<lparr>stacks := stacks self @ [s],
                                             stacks_size := max (stacks_size self)
                                                               (stack_start s + stack_max s)\<rparr>,
                                        spr1)))
                 | Some k \<Rightarrow>
                     (case loc_t l of
                        None \<Rightarrow> Inl UnboundLocalError
                      | Some (tw, th, rotd) \<Rightarrow>
                          (case Stack_place (stacks self ! k)
                                  (if rotd then sprite_rotate spr else spr) of
                             (s, spr1) \<Rightarrow>
                               Inr (True,
                                    self\<lparr>stacks := (stacks self)[k := s],
                                         stacks_size := max (stacks_size self)
                                                           (stack_start s + stack_max s)\<rparr>,
                                    spr1))))))"

text \<open>\<^verbatim>\<open>SkylineLayout.add\<close> raises \<^verbatim>\<open>NotImplementedError\<close>.\<close>

definition SkylineLayout_add :: "sprite \<Rightarrow> error + bool" where
  "SkylineLayout_add spr = Inl NotImplementedError"

section \<open>Concrete inputs\<close>

text \<open>A sheet of the given size without user-supplied exclusion, and a sprite of the given
  size as the caller passes it: not rotated, at the origin.\<close>

definition plain_sheet :: "int \<Rightarrow> int \<Rightarrow> bool \<Rightarrow> sheet" where
  "plain_sheet maxw maxh r =
     \<lparr>sheet_size = (maxw, maxh), sheet_rotate = r, sheet_exclude = (\<lambda>r. False)\<rparr>"

definition new_sprite :: "nat \<Rightarrow> int \<Rightarrow> int \<Rightarrow> sprite" where
  "new_sprite i w h = \<lparr>box = Rect w h 0 0, rotated = False, ident = i\<rparr>"

definition placed_at :: "nat \<Rightarrow> int \<Rightarrow> int \<Rightarrow> int \<Rightarrow> int \<Rightarrow> bool \<Rightarrow> sprite" where
  "placed_at i w h x y r = \<lparr>box = Rect w h x y, rotated = r, ident = i\<rparr>"

text \<open>The list \<^verbatim>\<open>placed\<close> of a result of \<^verbatim>\<open>add\<close>.\<close>

definition placed_of :: "(error + 'st \<times> sprite list \<times> sprite list) option \<Rightarrow> sprite list" where
  "placed_of r = (case r of Some (Inr (st, placed, remain)) \<Rightarrow> placed | _ \<Rightarrow> [])"

section \<open>Notions used in the statements\<close>

text \<open>The index that \<^verbatim>\<open>get_best\<close> has recorded in \<^verbatim>\<open>best\<close>, if any, is below \<open>n\<close>.\<close>

definition index_below :: "nat \<Rightarrow> ((nat \<times> 'pos \<times> bool) \<times> 'score) option \<Rightarrow> bool" where
  "index_below n best = (case best of None \<Rightarrow> True | Some ((k, p), sc) \<Rightarrow> k < n)"

text \<open>The rectangle \<open>a\<close> lies in the rectangle \<open>b\<close>.\<close>

definition inside :: "rect \<Rightarrow> rect \<Rightarrow> bool" where
  "inside a b \<longleftrightarrow> rx b \<le> rx a \<and> right a \<le> right b \<and> ry b \<le> ry a \<and> bottom a \<le> bottom b"

text \<open>A sprite of width \<open>w\<close> and height \<open>h\<close> does not exceed the bin.\<close>

definition fits :: "sheet \<Rightarrow> int \<Rightarrow> int \<Rightarrow> bool" where
  "fits sh w h \<longleftrightarrow> w \<le> fst (sheet_size sh) \<and> h \<le> snd (sheet_size sh)"

text \<open>
  A client that calls \<^verbatim>\<open>MaxRectsLayout.place\<close> once for every entry of a list of
  arguments: the state it ends in, and the sprites of the calls that returned true.
\<close>

fun MaxRects_places :: "sheet \<Rightarrow> maxrects \<Rightarrow> (sprite \<times> rect \<times> bool) list \<Rightarrow>
    maxrects \<times> sprite list" where
  "MaxRects_places sh st [] = (st, [])"
| "MaxRects_places sh st ((s, pos, rot) # calls) =
     (case MaxRects_place sh st s pos rot of
        (True, st1, s1) \<Rightarrow>
          (case MaxRects_places sh st1 calls of (st2, ps) \<Rightarrow> (st2, s1 # ps))
      | (False, st1, s1) \<Rightarrow> MaxRects_places sh st1 calls)"

text \<open>No two sprites of the list intersect.\<close>

fun disjoint_sprites :: "sprite list \<Rightarrow> bool" where
  "disjoint_sprites [] = True"
| "disjoint_sprites (s # ss) =
     (list_all (\<lambda>t. \<not> intersects (box s) (box t)) ss \<and> disjoint_sprites ss)"

text \<open>What \<^verbatim>\<open>search\<close> has found so far lies in a free rectangle; without rotation it has
  the size of the rectangle searched for, and the flag \<^verbatim>\<open>rotate\<close> is false.\<close>

definition found_ok :: "sheet \<Rightarrow> rect list \<Rightarrow> rect \<Rightarrow> found \<Rightarrow> bool" where
  "found_ok sh fs r acc \<longleftrightarrow>
     (case fst acc of None \<Rightarrow> True
      | Some (pos, bssf, blsf) \<Rightarrow> (\<exists>f \<in> set fs. inside pos f) \<and>
          (\<not> sheet_rotate sh \<longrightarrow> rw pos = rw r \<and> rh pos = rh r)) \<and>
     (\<not> sheet_rotate sh \<longrightarrow> \<not> snd acc)"

text \<open>A choice of \<^verbatim>\<open>MaxRectsLayout.get_best\<close> for a sprite: the position lies in a free
  rectangle, the flag is the one of the sprite, and without rotation the position has the
  size of the sprite.\<close>

definition good_choice :: "sheet \<Rightarrow> maxrects \<Rightarrow> sprite \<Rightarrow> rect \<Rightarrow> bool \<Rightarrow> bool" where
  "good_choice sh st spr pos rot \<longleftrightarrow>
     (\<exists>f \<in> set (free_rects st). inside pos f) \<and> rot = rotated spr \<and>
     (\<not> sheet_rotate sh \<longrightarrow> rw (box spr) = rw pos \<and> rh (box spr) = rh pos)"

text \<open>The invariant of the driver loop for MaxRects: the placed sprites lie in the bin;
  without rotation no two of them intersect and no free rectangle intersects one of them.\<close>

definition placed_ok :: "sheet \<Rightarrow> maxrects \<Rightarrow> sprite list \<Rightarrow> bool" where
  "placed_ok sh st placed \<longleftrightarrow>
     (\<forall>p \<in> set placed. in_bin sh (box p)) \<and>
     (\<not> sheet_rotate sh \<longrightarrow> disjoint_sprites placed \<and>
        (\<forall>p \<in> set placed. \<forall>f \<in> set (free_rects st). \<not> intersects f (box p)))"

text \<open>The invariant of the shelf layout: the shelves lie one below the other, from 0 to
  \<^verbatim>\<open>self.size\<close>, inside the bin.\<close>

definition shelf_inv :: "sheet \<Rightarrow> shelflayout \<Rightarrow> bool" where
  "shelf_inv sh st \<longleftrightarrow>
     0 \<le> layout_size st \<and>
     (shelves st = [] \<longrightarrow> layout_size st = 0) \<and>
     (shelves st \<noteq> [] \<longrightarrow> layout_size st \<le> snd (sheet_size sh)) \<and>
     (\<forall>s \<in> set (shelves st).
        0 \<le> shelf_start s \<and> 0 \<le> shelf_size s \<and> shelf_size s \<le> fst (sheet_size sh) \<and>
        0 \<le> shelf_max s \<and> shelf_start s + shelf_max s \<le> layout_size st) \<and>
     (\<forall>i j. i < j \<and> j < length (shelves st) \<longrightarrow>
        shelf_start (shelves st ! i) + shelf_max (shelves st ! i) \<le> shelf_start (shelves st ! j))"

text \<open>The rectangle \<open>b\<close> lies on the shelf \<open>s\<close>, in the part of it that is in use.\<close>

definition on_shelf :: "shelf \<Rightarrow> rect \<Rightarrow> bool" where
  "on_shelf s b \<longleftrightarrow>
     ry b = shelf_start s \<and> 0 \<le> rx b \<and> right b \<le> shelf_size s \<and>
     bottom b \<le> shelf_start s + shelf_max s"

text \<open>The rectangle lies on one of the shelves of the layout.\<close>

definition on_shelves :: "shelflayout \<Rightarrow> rect \<Rightarrow> bool" where
  "on_shelves st b \<longleftrightarrow> (\<exists>k < length (shelves st). on_shelf (shelves st ! k) b)"

text \<open>A choice of \<^verbatim>\<open>ShelfLayout.get_best\<close> for a sprite that is not rotated: a shelf of
  the layout on which the sprite fits, or a new shelf below the others for which there is
  room.\<close>

definition shelf_choice :: "sheet \<Rightarrow> shelflayout \<Rightarrow> sprite \<Rightarrow> shelf_pos \<Rightarrow> bool" where
  "shelf_choice sh st spr pos =
     (case pos of
        Existing k \<Rightarrow> k < length (shelves st) \<and>
          shelf_size (shelves st ! k) + rw (box spr) \<le> fst (sheet_size sh) \<and>
          rh (box spr) \<le> shelf_max (shelves st ! k)
      | Fresh s0 \<Rightarrow> s0 = Shelf (layout_size st) \<and>
          rw (box spr) \<le> fst (sheet_size sh) \<and> rh (box spr) \<le> snd (sheet_size sh) \<and>
          (shelves st \<noteq> [] \<longrightarrow> layout_size st + rh (box spr) \<le> snd (sheet_size sh)))"

text \<open>The invariant of the loop over the shelves for one sprite, without rotation.\<close>

definition shelf_acc_ok :: "sheet \<Rightarrow> shelflayout \<Rightarrow> sprite \<Rightarrow>
    sprite \<times> (shelf_pos \<times> int) option \<Rightarrow> bool" where
  "shelf_acc_ok sh st spr acc \<longleftrightarrow>
     fst acc = spr \<and>
     (case snd acc of None \<Rightarrow> True
      | Some (pos, sc) \<Rightarrow> (\<exists>k. pos = Existing k) \<and> shelf_choice sh st spr pos)"

text \<open>The invariant of the driver loop for the shelf layout, without rotation.\<close>

definition shelf_run_ok :: "sheet \<Rightarrow> shelflayout \<Rightarrow> sprite list \<Rightarrow> sprite list \<Rightarrow> bool" where
  "shelf_run_ok sh st placed remain \<longleftrightarrow>
     shelf_inv sh st \<and>
     (\<forall>s \<in> set remain. 0 \<le> rw (box s) \<and> 0 \<le> rh (box s)) \<and>
     (\<forall>p \<in> set placed. in_bin sh (box p) \<and> on_shelves st (box p)) \<and>
     disjoint_sprites placed"

text \<open>The invariant of the stack layout, the transpose of the one of the shelf layout.\<close>

definition stack_inv :: "sheet \<Rightarrow> stacklayout \<Rightarrow> bool" where
  "stack_inv sh st \<longleftrightarrow>
     0 \<le> stacks_size st \<and>
     (stacks st = [] \<longrightarrow> stacks_size st = 0) \<and>
     (stacks st \<noteq> [] \<longrightarrow> stacks_size st \<le> fst (sheet_size sh)) \<and>
     (\<forall>s \<in> set (stacks st).
        0 \<le> stack_start s \<and> 0 \<le> stack_size s \<and> stack_size s \<le> snd (sheet_size sh) \<and>
        0 \<le> stack_max s \<and> stack_start s + stack_max s \<le> stacks_size st) \<and>
     (\<forall>i j. i < j \<and> j < length (stacks st) \<longrightarrow>
        stack_start (stacks st ! i) + stack_max (stacks st ! i) \<le> stack_start (stacks st ! j))"

text \<open>The rectangle \<open>b\<close> lies on the stack \<open>s\<close>, in the part of it that is in use.\<close>

definition on_stack :: "stack \<Rightarrow> rect \<Rightarrow> bool" where
  "on_stack s b \<longleftrightarrow>
     rx b = stack_start s \<and> 0 \<le> ry b \<and> bottom b \<le> stack_size s \<and>
     right b \<le> stack_start s + stack_max s"

text \<open>The rectangle lies on one of the stacks of the layout.\<close>

definition on_stacks :: "stacklayout \<Rightarrow> rect \<Rightarrow> bool" where
  "on_stacks st b \<longleftrightarrow> (\<exists>k < length (stacks st). on_stack (stacks st ! k) b)"

text \<open>The invariant of the loop over the stacks in \<^verbatim>\<open>StackLayout.add\<close>, while it has not
  raised.\<close>

definition stack_acc_ok :: "sheet \<Rightarrow> stacklayout \<Rightarrow> int \<Rightarrow> int \<Rightarrow> error + stack_locals \<Rightarrow> bool" where
  "stack_acc_ok sh st w h acc =
     (case acc of
        Inl e \<Rightarrow> True
      | Inr l \<Rightarrow>
          (case loc_stack l of None \<Rightarrow> True
           | Some k \<Rightarrow> k < length (stacks st) \<and>
               stack_size (stacks st ! k) + h \<le> snd (sheet_size sh) \<and>
               w \<le> stack_max (stacks st ! k)) \<and>
          (case loc_t l of None \<Rightarrow> True | Some (tw, th, r) \<Rightarrow> tw = w \<and> th = h \<and> \<not> r))"

text \<open>What a call of \<^verbatim>\<open>StackLayout.add\<close> that returns true establishes.\<close>

definition stack_sound_step :: "sheet \<Rightarrow> stacklayout \<Rightarrow> sprite \<Rightarrow> stacklayout \<Rightarrow> sprite \<Rightarrow> bool" where
  "stack_sound_step sh st spr st1 spr1 \<longleftrightarrow>
     stack_inv sh st1 \<and> in_bin sh (box spr1) \<and> on_stacks st1 (box spr1) \<and>
     (\<forall>b. on_stacks st b \<longrightarrow> on_stacks st1 b \<and> \<not> intersects b (box spr1))"

text \<open>A client that calls \<^verbatim>\<open>StackLayout.add\<close> for one sprite after the other: the state
  it ends in and the sprites of the calls that returned true, or the exception of the
  first call that raised.\<close>

fun StackLayout_adds :: "sheet \<Rightarrow> stacklayout \<Rightarrow> sprite list \<Rightarrow>
    error + stacklayout \<times> sprite list" where
  "StackLayout_adds sh st [] = Inr (st, [])"
| "StackLayout_adds sh st (s # ss) =
     (case StackLayout_add sh st s of
        Inl e \<Rightarrow> Inl e
      | Inr (ok, st1, s1) \<Rightarrow>
          (case StackLayout_adds sh st1 ss of
             Inl e \<Rightarrow> Inl e
           | Inr (st2, ps) \<Rightarrow> Inr (st2, if ok then s1 # ps else ps)))"

text \<open>The rectangles that \<^verbatim>\<open>split\<close> appends for a free rectangle and a placed one.\<close>

definition slivers :: "rect \<Rightarrow> rect \<Rightarrow> rect list" where
  "slivers free rect = snd (MaxRects_split [] free rect)"

text \<open>A free list without repetition whose rectangles have non-negative size and do not
  contain one another.\<close>

definition free_ok :: "rect list \<Rightarrow> bool" where
  "free_ok fs \<longleftrightarrow>
     distinct fs \<and> (\<forall>f \<in> set fs. 0 \<le> rw f \<and> 0 \<le> rh f) \<and>
     (\<forall>f \<in> set fs. \<forall>g \<in> set fs. f \<noteq> g \<longrightarrow> \<not> contains f g)"

text \<open>The shelf that a call of \<^verbatim>\<open>ShelfLayout.place\<close> is given, and the list of
  shelves once that shelf, updated, is back in the layout: in its place when it was
  already there, at the end when it is new.\<close>

definition chosen_shelf :: "shelflayout \<Rightarrow> shelf_pos \<Rightarrow> shelf" where
  "chosen_shelf st pos = (case pos of Existing k \<Rightarrow> shelves st ! k | Fresh s0 \<Rightarrow> s0)"

definition put_shelf :: "shelflayout \<Rightarrow> shelf_pos \<Rightarrow> shelf \<Rightarrow> shelf list" where
  "put_shelf st pos s =
     (case pos of Existing k \<Rightarrow> (shelves st)[k := s] | Fresh s0 \<Rightarrow> shelves st @ [s])"

section \<open>The driver: lengths, identities, termination\<close>

lemma length_pop: "i < length xs \<Longrightarrow> Suc (length (pop i xs)) = length xs"
  by (simp add: pop_def min_def)

lemma mset_pop: "i < length xs \<Longrightarrow> add_mset (xs ! i) (mset (pop i xs)) = mset xs"
proof -
  assume "i < length xs"
  then have "xs = take i xs @ xs ! i # drop (Suc i) xs"
    by (simp add: id_take_nth_drop)
  then have "mset xs = mset (take i xs @ xs ! i # drop (Suc i) xs)"
    by simp
  then show ?thesis
    by (simp add: pop_def)
qed

lemma subseq_pop: "subseq (pop i xs) xs"
proof -
  have "drop (Suc i) xs = drop 1 (drop i xs)"
    by simp
  then have "suffix (drop (Suc i) xs) (drop i xs)"
    using suffix_drop by metis
  then have "subseq (drop (Suc i) xs) (drop i xs)"
    by (simp add: suffix_imp_subseq)
  then have "subseq (take i xs @ drop (Suc i) xs) (take i xs @ drop i xs)"
    by (intro list_emb_append_mono) simp_all
  then show ?thesis
    by (simp add: pop_def)
qed

lemma map_pop: "map f (pop i xs) = pop i (map f xs)"
  by (simp add: pop_def take_map drop_map)

lemma add_body_Continue_length:
  assumes "\<And>st r. length (fst (gb st r)) = length r"
    and "add_body gb pl st placed remain = Continue st1 placed1 remain1"
  shows "Suc (length remain1) = length remain \<and> length placed1 = Suc (length placed)"
proof -
  obtain r1 b where g: "gb st remain = (r1, b)"
    by (cases "gb st remain")
  have l: "length r1 = length remain"
    using assms(1) [of st remain] g by simp
  show ?thesis
    using assms(2) l
    by (auto simp: add_body_def g length_pop split: option.splits prod.splits if_splits bool.splits)
qed

lemma add_loop_fuel:
  assumes "\<And>st r. length (fst (gb st r)) = length r"
  shows "length remain \<le> n \<Longrightarrow>
    add_loop gb pl n st placed remain = add_loop gb pl (length remain) st placed remain"
proof (induction n arbitrary: st placed remain)
  case 0
  then show ?case by simp
next
  case (Suc n)
  show ?case
  proof (cases remain)
    case Nil
    then show ?thesis by simp
  next
    case (Cons s ss)
    then have ne: "remain \<noteq> []" and len: "length remain = Suc (length ss)"
      by simp_all
    show ?thesis
    proof (cases "add_body gb pl st placed remain")
      case (Continue st1 placed1 remain1)
      have l1: "length remain1 = length ss"
        using add_body_Continue_length [OF assms Continue] len by simp
      then have "length remain1 \<le> n"
        using Suc.prems len by simp
      then have "add_loop gb pl n st1 placed1 remain1 =
          add_loop gb pl (length remain1) st1 placed1 remain1"
        by (rule Suc.IH)
      then show ?thesis
        using ne Continue l1 len by simp
    next
      case (Break st1 placed1 remain1)
      then show ?thesis using ne len by simp
    next
      case (Raise e)
      then show ?thesis using ne len by simp
    qed
  qed
qed

lemma add_body_Continue_ident:
  assumes gbi: "\<And>st r. map ident (fst (gb st r)) = map ident r"
    and pli: "\<And>st s pos rot. ident (snd (snd (pl st s pos rot))) = ident s"
    and c: "add_body gb pl st placed remain = Continue st1 placed1 remain1"
  shows "\<exists>i spr. placed1 = placed @ [spr] \<and> i < length remain \<and>
      ident spr = map ident remain ! i \<and> map ident remain1 = pop i (map ident remain)"
proof -
  obtain r1 b where g: "gb st remain = (r1, b)"
    by (cases "gb st remain")
  have m: "map ident r1 = map ident remain"
    using gbi [of st remain] g by simp
  then have l: "length r1 = length remain"
    by (rule map_eq_imp_length_eq)
  from c g obtain i pos rot where b: "b = Some (i, pos, rot)" and i: "i < length r1"
    by (auto simp: add_body_def split: option.splits if_splits)
  obtain ok st2 spr where p: "pl st (r1 ! i) pos rot = (ok, st2, spr)"
    by (cases "pl st (r1 ! i) pos rot")
  have id: "ident spr = ident (r1 ! i)"
    using pli [of st "r1 ! i" pos rot] p by simp
  from c g b i p have ok: "placed1 = placed @ [spr]" "remain1 = pop i (r1[i := spr])"
    by (auto simp: add_body_def split: if_splits bool.splits)
  have "map ident (r1[i := spr]) = map ident r1"
    using id i by (simp add: map_update list_update_same_conv)
  then have "map ident remain1 = pop i (map ident remain)"
    using ok m by (simp add: map_pop)
  moreover have "ident spr = map ident remain ! i"
    using id i l m by (metis nth_map)
  ultimately show ?thesis
    using ok i l by auto
qed

lemma add_body_Break_ident:
  assumes gbi: "\<And>st r. map ident (fst (gb st r)) = map ident r"
    and pli: "\<And>st s pos rot. ident (snd (snd (pl st s pos rot))) = ident s"
    and c: "add_body gb pl st placed remain = Break st1 placed1 remain1"
  shows "placed1 = placed \<and> map ident remain1 = map ident remain"
proof -
  obtain r1 b where g: "gb st remain = (r1, b)"
    by (cases "gb st remain")
  have m: "map ident r1 = map ident remain"
    using gbi [of st remain] g by simp
  show ?thesis
  proof (cases b)
    case None
    then show ?thesis using c g m by (simp add: add_body_def)
  next
    case (Some t)
    obtain i pos rot where t: "t = (i, pos, rot)" by (cases t)
    obtain ok st2 spr where p: "pl st (r1 ! i) pos rot = (ok, st2, spr)"
      by (cases "pl st (r1 ! i) pos rot")
    have id: "ident spr = ident (r1 ! i)"
      using pli [of st "r1 ! i" pos rot] p by simp
    from c g Some t p have i: "i < length r1" and r: "remain1 = r1[i := spr]" and "placed1 = placed"
      by (auto simp: add_body_def split: if_splits bool.splits)
    moreover have "map ident (r1[i := spr]) = map ident r1"
      using id i by (simp add: map_update list_update_same_conv)
    ultimately show ?thesis using m by simp
  qed
qed

lemma add_loop_partition:
  assumes gbi: "\<And>st r. map ident (fst (gb st r)) = map ident r"
    and pli: "\<And>st s pos rot. ident (snd (snd (pl st s pos rot))) = ident s"
  shows "add_loop gb pl n st placed remain = Some (Inr (st', placed', remain')) \<Longrightarrow>
     mset (map ident placed') + mset (map ident remain') =
       mset (map ident placed) + mset (map ident remain) \<and>
     subseq (map ident remain') (map ident remain)"
proof (induction n arbitrary: st placed remain)
  case 0
  then show ?case by (simp split: if_splits)
next
  case (Suc n)
  show ?case
  proof (cases "remain = []")
    case True
    then show ?thesis using Suc.prems by simp
  next
    case False
    show ?thesis
    proof (cases "add_body gb pl st placed remain")
      case (Continue st1 placed1 remain1)
      from add_body_Continue_ident [OF gbi pli Continue]
      obtain i spr where s: "placed1 = placed @ [spr]" "i < length remain"
        "ident spr = map ident remain ! i" "map ident remain1 = pop i (map ident remain)"
        by blast
      have "add_loop gb pl n st1 placed1 remain1 = Some (Inr (st', placed', remain'))"
        using Suc.prems False Continue by simp
      then have ih: "mset (map ident placed') + mset (map ident remain') =
          mset (map ident placed1) + mset (map ident remain1)"
        "subseq (map ident remain') (map ident remain1)"
        using Suc.IH by blast+
      have "add_mset (map ident remain ! i) (mset (pop i (map ident remain))) =
          mset (map ident remain)"
        using s(2) by (intro mset_pop) simp
      then have "mset (map ident placed1) + mset (map ident remain1) =
          mset (map ident placed) + mset (map ident remain)"
        using s by simp
      moreover have "subseq (map ident remain1) (map ident remain)"
        using s(4) subseq_pop by metis
      ultimately show ?thesis
        using ih subseq_order.order_trans by metis
    next
      case (Break st1 placed1 remain1)
      then show ?thesis
        using add_body_Break_ident [OF gbi pli Break] Suc.prems False by auto
    next
      case (Raise e)
      then show ?thesis using Suc.prems False by simp
    qed
  qed
qed

lemma add_body_no_Raise:
  assumes "\<And>st r r1 i pos rot. gb st r = (r1, Some (i, pos, rot)) \<Longrightarrow> i < length r1"
  shows "add_body gb pl st placed remain \<noteq> Raise e"
proof -
  obtain r1 b where g: "gb st remain = (r1, b)"
    by (cases "gb st remain")
  show ?thesis
  proof (cases b)
    case None
    then show ?thesis using g by (simp add: add_body_def)
  next
    case (Some t)
    obtain i pos rot where t: "t = (i, pos, rot)" by (cases t)
    have "i < length r1"
      using assms g Some t by simp
    then show ?thesis
      using g Some t by (simp add: add_body_def split: prod.splits bool.splits)
  qed
qed

lemma add_loop_returns_normally:
  assumes len: "\<And>st r. length (fst (gb st r)) = length r"
    and idx: "\<And>st r r1 i pos rot. gb st r = (r1, Some (i, pos, rot)) \<Longrightarrow> i < length r1"
  shows "length remain \<le> n \<Longrightarrow> \<exists>res. add_loop gb pl n st placed remain = Some (Inr res)"
proof (induction n arbitrary: st placed remain)
  case 0
  then show ?case by simp
next
  case (Suc n)
  show ?case
  proof (cases "remain = []")
    case True
    then show ?thesis by simp
  next
    case False
    show ?thesis
    proof (cases "add_body gb pl st placed remain")
      case (Continue st1 placed1 remain1)
      then have "length remain1 \<le> n"
        using add_body_Continue_length [OF len Continue] Suc.prems by simp
      then show ?thesis
        using Suc.IH [of remain1 st1 placed1] False Continue by simp
    next
      case (Break st1 placed1 remain1)
      then show ?thesis using False by simp
    next
      case (Raise e)
      have "add_body gb pl st placed remain \<noteq> Raise e"
        by (rule add_body_no_Raise) (rule idx)
      then show ?thesis using Raise by simp
    qed
  qed
qed

lemma add_loop_invariant:
  assumes step: "\<And>st placed remain st1 placed1 remain1.
      I st placed remain \<Longrightarrow> add_body gb pl st placed remain = Continue st1 placed1 remain1 \<Longrightarrow>
      I st1 placed1 remain1"
    and brk: "\<And>st placed remain st1 placed1 remain1.
      I st placed remain \<Longrightarrow> add_body gb pl st placed remain = Break st1 placed1 remain1 \<Longrightarrow>
      I st1 placed1 remain1"
  shows "I st placed remain \<Longrightarrow>
      add_loop gb pl n st placed remain = Some (Inr (st', placed', remain')) \<Longrightarrow>
      I st' placed' remain'"
proof (induction n arbitrary: st placed remain)
  case 0
  then show ?case by (auto split: if_splits)
next
  case (Suc n)
  show ?case
  proof (cases "remain = []")
    case True
    then show ?thesis using Suc.prems by auto
  next
    case False
    show ?thesis
    proof (cases "add_body gb pl st placed remain")
      case (Continue st1 placed1 remain1)
      have "I st1 placed1 remain1"
        using step [OF Suc.prems(1) Continue] .
      moreover have "add_loop gb pl n st1 placed1 remain1 = Some (Inr (st', placed', remain'))"
        using Suc.prems(2) False Continue by simp
      ultimately show ?thesis by (rule Suc.IH)
    next
      case (Break st1 placed1 remain1)
      then show ?thesis
        using brk [OF Suc.prems(1) Break] Suc.prems(2) False by simp
    next
      case (Raise e)
      then show ?thesis using Suc.prems(2) False by simp
    qed
  qed
qed

section \<open>What the strategies do to the list of sprites\<close>

lemma ident_sprite_rotate [simp]: "ident (sprite_rotate s) = ident s"
  by (simp add: sprite_rotate_def)

lemma index_below_None [simp]: "index_below n None"
  by (simp add: index_below_def)

lemma index_below_mono: "index_below n best \<Longrightarrow> n \<le> m \<Longrightarrow> index_below m best"
  by (auto simp: index_below_def split: option.splits)

subsection \<open>MaxRects\<close>

lemma MaxRects_get_best_step_ident:
  "MaxRects_get_best_step sh st i spr best = (spr1, best1) \<Longrightarrow> ident spr1 = ident spr"
  by (auto simp: MaxRects_get_best_step_def Let_def split: prod.splits option.splits if_splits)

lemma MaxRects_get_best_step_index:
  "MaxRects_get_best_step sh st i spr best = (spr1, best1) \<Longrightarrow> index_below i best \<Longrightarrow>
     index_below (Suc i) best1"
  by (auto simp: MaxRects_get_best_step_def Let_def index_below_def
      split: prod.splits option.splits if_splits)

lemma MaxRects_get_best_loop_ident:
  "map ident (fst (MaxRects_get_best_loop sh st i sprites best)) = map ident sprites"
proof (induction sprites arbitrary: i best)
  case Nil
  show ?case by simp
next
  case (Cons spr sprites)
  obtain spr1 best1 where s: "MaxRects_get_best_step sh st i spr best = (spr1, best1)"
    by (cases "MaxRects_get_best_step sh st i spr best")
  obtain sprites1 best2 where l: "MaxRects_get_best_loop sh st (Suc i) sprites best1 = (sprites1, best2)"
    by (cases "MaxRects_get_best_loop sh st (Suc i) sprites best1")
  have "map ident sprites1 = map ident sprites"
    using Cons.IH [of "Suc i" best1] l by simp
  then show ?case
    using s l MaxRects_get_best_step_ident [OF s] by simp
qed

lemma MaxRects_get_best_loop_index:
  "index_below i best \<Longrightarrow>
     index_below (i + length sprites) (snd (MaxRects_get_best_loop sh st i sprites best))"
proof (induction sprites arbitrary: i best)
  case Nil
  then show ?case by simp
next
  case (Cons spr sprites)
  obtain spr1 best1 where s: "MaxRects_get_best_step sh st i spr best = (spr1, best1)"
    by (cases "MaxRects_get_best_step sh st i spr best")
  obtain sprites1 best2 where l: "MaxRects_get_best_loop sh st (Suc i) sprites best1 = (sprites1, best2)"
    by (cases "MaxRects_get_best_loop sh st (Suc i) sprites best1")
  have "index_below (Suc i) best1"
    using MaxRects_get_best_step_index [OF s Cons.prems] .
  then have "index_below (Suc i + length sprites) best2"
    using Cons.IH [of "Suc i" best1] l by simp
  then show ?case
    using s l by simp
qed

lemma MaxRects_get_best_ident:
  "map ident (fst (MaxRects_get_best sh st sprites)) = map ident sprites"
  using MaxRects_get_best_loop_ident [of sh st 0 sprites None]
  by (auto simp: MaxRects_get_best_def split: prod.splits)

lemma MaxRects_get_best_length:
  "length (fst (MaxRects_get_best sh st sprites)) = length sprites"
  using MaxRects_get_best_ident [of sh st sprites] by (rule map_eq_imp_length_eq)

lemma MaxRects_get_best_index:
  assumes "MaxRects_get_best sh st sprites = (sprites1, Some (i, pos, rot))"
  shows "i < length sprites1"
proof -
  obtain best where l: "MaxRects_get_best_loop sh st 0 sprites None = (sprites1, best)"
    and b: "map_option fst best = Some (i, pos, rot)"
    using assms by (auto simp: MaxRects_get_best_def split: prod.splits)
  have "index_below (0 + length sprites) best"
    using MaxRects_get_best_loop_index [of 0 None sprites sh st] l by simp
  moreover have "length sprites1 = length sprites"
    using MaxRects_get_best_length [of sh st sprites] assms by simp
  ultimately show ?thesis
    using b by (auto simp: index_below_def)
qed

lemma MaxRects_place_ident:
  "ident (snd (snd (MaxRects_place sh st s pos rot))) = ident s"
  by (simp add: MaxRects_place_def Let_def)

subsection \<open>Shelf\<close>

lemma shelf_step_ident: "ident (fst (shelf_step sh acc ks)) = ident (fst acc)"
  by (simp add: shelf_step_def Let_def split: option.splits prod.splits)

lemma foldl_shelf_step_ident:
  "ident (fst (foldl (shelf_step sh) acc kss)) = ident (fst acc)"
  by (induction kss arbitrary: acc) (simp_all add: shelf_step_ident)

lemma ShelfLayout_get_best_step_ident:
  assumes "ShelfLayout_get_best_step sh st i spr best = (spr1, best1)"
  shows "ident spr1 = ident spr"
proof -
  obtain spr2 bs where f: "foldl (shelf_step sh) (spr, None) (enumerate 0 (shelves st)) = (spr2, bs)"
    by (cases "foldl (shelf_step sh) (spr, None) (enumerate 0 (shelves st))")
  have "ident spr2 = ident spr"
    using foldl_shelf_step_ident [of sh "(spr, None)" "enumerate 0 (shelves st)"] f by simp
  then show ?thesis
    using assms f
    by (auto simp: ShelfLayout_get_best_step_def Let_def split: if_splits option.splits prod.splits)
qed

lemma ShelfLayout_get_best_step_index:
  "ShelfLayout_get_best_step sh st i spr best = (spr1, best1) \<Longrightarrow> index_below i best \<Longrightarrow>
     index_below (Suc i) best1"
  by (auto simp: ShelfLayout_get_best_step_def Let_def index_below_def
      split: prod.splits option.splits if_splits)

lemma ShelfLayout_get_best_loop_ident:
  "map ident (fst (ShelfLayout_get_best_loop sh st i sprites best)) = map ident sprites"
proof (induction sprites arbitrary: i best)
  case Nil
  show ?case by simp
next
  case (Cons spr sprites)
  obtain spr1 best1 where s: "ShelfLayout_get_best_step sh st i spr best = (spr1, best1)"
    by (cases "ShelfLayout_get_best_step sh st i spr best")
  obtain sprites1 best2 where l: "ShelfLayout_get_best_loop sh st (Suc i) sprites best1 = (sprites1, best2)"
    by (cases "ShelfLayout_get_best_loop sh st (Suc i) sprites best1")
  have "map ident sprites1 = map ident sprites"
    using Cons.IH [of "Suc i" best1] l by simp
  then show ?case
    using s l ShelfLayout_get_best_step_ident [OF s] by simp
qed

lemma ShelfLayout_get_best_loop_index:
  "index_below i best \<Longrightarrow>
     index_below (i + length sprites) (snd (ShelfLayout_get_best_loop sh st i sprites best))"
proof (induction sprites arbitrary: i best)
  case Nil
  then show ?case by simp
next
  case (Cons spr sprites)
  obtain spr1 best1 where s: "ShelfLayout_get_best_step sh st i spr best = (spr1, best1)"
    by (cases "ShelfLayout_get_best_step sh st i spr best")
  obtain sprites1 best2 where l: "ShelfLayout_get_best_loop sh st (Suc i) sprites best1 = (sprites1, best2)"
    by (cases "ShelfLayout_get_best_loop sh st (Suc i) sprites best1")
  have "index_below (Suc i) best1"
    using ShelfLayout_get_best_step_index [OF s Cons.prems] .
  then have "index_below (Suc i + length sprites) best2"
    using Cons.IH [of "Suc i" best1] l by simp
  then show ?case
    using s l by simp
qed

lemma ShelfLayout_get_best_ident:
  "map ident (fst (ShelfLayout_get_best sh st sprites)) = map ident sprites"
  using ShelfLayout_get_best_loop_ident [of sh st 0 sprites None]
  by (auto simp: ShelfLayout_get_best_def split: prod.splits)

lemma ShelfLayout_get_best_length:
  "length (fst (ShelfLayout_get_best sh st sprites)) = length sprites"
  using ShelfLayout_get_best_ident [of sh st sprites] by (rule map_eq_imp_length_eq)

lemma ShelfLayout_get_best_index:
  assumes "ShelfLayout_get_best sh st sprites = (sprites1, Some (i, pos, rot))"
  shows "i < length sprites1"
proof -
  obtain best where l: "ShelfLayout_get_best_loop sh st 0 sprites None = (sprites1, best)"
    and b: "map_option fst best = Some (i, pos, rot)"
    using assms by (auto simp: ShelfLayout_get_best_def split: prod.splits)
  have "index_below (0 + length sprites) best"
    using ShelfLayout_get_best_loop_index [of 0 None sprites sh st] l by simp
  moreover have "length sprites1 = length sprites"
    using ShelfLayout_get_best_length [of sh st sprites] assms by simp
  ultimately show ?thesis
    using b by (auto simp: index_below_def)
qed

lemma ShelfLayout_place_ident:
  "ident (snd (snd (ShelfLayout_place st s pos rot))) = ident s"
  by (cases pos) (simp_all add: ShelfLayout_place_def Shelf_place_def Let_def)

section \<open>MaxRects: the free list after a placement\<close>

lemma inside_refl [simp]: "inside a a"
  by (simp add: inside_def)

lemma inside_trans: "inside a b \<Longrightarrow> inside b c \<Longrightarrow> inside a c"
  by (auto simp: inside_def)

lemma inside_intersects: "inside a b \<Longrightarrow> intersects a u \<Longrightarrow> intersects b u"
  by (auto simp: inside_def intersects_def)

lemma MaxRects_split_fst: "fst (MaxRects_split fs free rect) = intersects free rect"
  by (auto simp: MaxRects_split_def intersects_def right_def bottom_def Let_def)

lemma MaxRects_split_snd:
  "\<exists>ss. snd (MaxRects_split fs free rect) = fs @ ss \<and>
     (\<forall>s \<in> set ss. inside s free \<and> \<not> intersects s rect)"
proof (cases "intersects free rect")
  case False
  then have "snd (MaxRects_split fs free rect) = fs @ []"
    by (auto simp: MaxRects_split_def intersects_def right_def bottom_def)
  then show ?thesis by (metis empty_iff empty_set)
next
  case True
  define top where "top = free\<lparr>rh := ry rect - ry free\<rparr>"
  define bot where "bot = free\<lparr>ry := ry rect + rh rect,
      rh := ry free + rh free - (ry rect + rh rect)\<rparr>"
  define lft where "lft = free\<lparr>rw := rx rect - rx free\<rparr>"
  define rgt where "rgt = free\<lparr>rx := rx rect + rw rect,
      rw := rx free + rw free - (rx rect + rw rect)\<rparr>"
  define c1 where "c1 \<longleftrightarrow> ry free < ry rect \<and> ry rect < ry free + rh free"
  define c2 where "c2 \<longleftrightarrow> ry rect + rh rect < ry free + rh free"
  define c3 where "c3 \<longleftrightarrow> rx free < rx rect \<and> rx rect < rx free + rw free"
  define c4 where "c4 \<longleftrightarrow> rx rect + rw rect < rx free + rw free"
  define ss where "ss = (if c1 then [top] else []) @ (if c2 then [bot] else []) @
      (if c3 then [lft] else []) @ (if c4 then [rgt] else [])"
  have i: "rx free < rx rect + rw rect" "rx rect < rx free + rw free"
    "ry free < ry rect + rh rect" "ry rect < ry free + rh free"
    using True by (simp_all add: intersects_def right_def bottom_def)
  have "snd (MaxRects_split fs free rect) = fs @ ss"
    using i by (simp add: MaxRects_split_def Let_def ss_def c1_def c2_def c3_def c4_def
        top_def bot_def lft_def rgt_def)
  moreover have "c1 \<Longrightarrow> inside top free \<and> \<not> intersects top rect"
    using i by (simp add: c1_def top_def inside_def intersects_def right_def bottom_def)
  moreover have "c2 \<Longrightarrow> inside bot free \<and> \<not> intersects bot rect"
    using i by (simp add: c2_def bot_def inside_def intersects_def right_def bottom_def)
  moreover have "c3 \<Longrightarrow> inside lft free \<and> \<not> intersects lft rect"
    using i by (simp add: c3_def lft_def inside_def intersects_def right_def bottom_def)
  moreover have "c4 \<Longrightarrow> inside rgt free \<and> \<not> intersects rgt rect"
    using i by (simp add: c4_def rgt_def inside_def intersects_def right_def bottom_def)
  ultimately show ?thesis
    by (intro exI [of _ ss]) (auto simp: ss_def split: if_splits)
qed

lemma drop_pop: "i < length xs \<Longrightarrow> drop i (pop i xs) = drop (Suc i) xs"
  by (simp add: pop_def)

lemma set_pop: "set (pop i xs) \<subseteq> set xs"
  unfolding pop_def using set_take_subset [of i xs] set_drop_subset [of "Suc i" xs] by auto

lemma split_loop_clear:
  "i \<le> length fs \<Longrightarrow> \<forall>f \<in> set (drop i fs). \<not> intersects f rect \<Longrightarrow>
     \<forall>f \<in> set (split_loop rect i fs). \<not> intersects f rect"
proof (induction i arbitrary: fs)
  case 0
  then show ?case by simp
next
  case (Suc i)
  have i: "i < length fs" using Suc.prems(1) by simp
  show ?case
  proof (cases "intersects (fs ! i) rect")
    case False
    have "drop i fs = fs ! i # drop (Suc i) fs"
      using i by (simp add: Cons_nth_drop_Suc)
    then have "\<forall>f \<in> set (drop i fs). \<not> intersects f rect"
      using False Suc.prems(2) by simp
    then have "\<forall>f \<in> set (split_loop rect i fs). \<not> intersects f rect"
      using Suc.IH [of fs] i by simp
    then show ?thesis using False by simp
  next
    case True
    obtain ss where s: "snd (MaxRects_split fs (fs ! i) rect) = fs @ ss"
      and ss: "\<forall>s \<in> set ss. inside s (fs ! i) \<and> \<not> intersects s rect"
      using MaxRects_split_snd by blast
    have f: "fst (MaxRects_split fs (fs ! i) rect)"
      using True by (simp add: MaxRects_split_fst)
    have e: "MaxRects_split fs (fs ! i) rect = (True, fs @ ss)"
      using s f by (cases "MaxRects_split fs (fs ! i) rect") simp
    have "drop i (pop i (fs @ ss)) = drop (Suc i) fs @ ss"
      using i by (simp add: drop_pop)
    then have "\<forall>f \<in> set (drop i (pop i (fs @ ss))). \<not> intersects f rect"
      using Suc.prems(2) ss by auto
    moreover have "i \<le> length (pop i (fs @ ss))"
      using i by (simp add: pop_def)
    ultimately have "\<forall>f \<in> set (split_loop rect i (pop i (fs @ ss))). \<not> intersects f rect"
      by (rule Suc.IH [rotated])
    then show ?thesis using True e by simp
  qed
qed

lemma split_loop_inside:
  "i \<le> length fs \<Longrightarrow> \<forall>f \<in> set (split_loop rect i fs). \<exists>g \<in> set fs. inside f g"
proof (induction i arbitrary: fs)
  case 0
  show ?case using inside_refl by fastforce
next
  case (Suc i)
  have i: "i < length fs" using Suc.prems(1) by simp
  show ?case
  proof (cases "intersects (fs ! i) rect")
    case False
    then show ?thesis using Suc.IH [of fs] i by simp
  next
    case True
    obtain ss where s: "snd (MaxRects_split fs (fs ! i) rect) = fs @ ss"
      and ss: "\<forall>s \<in> set ss. inside s (fs ! i) \<and> \<not> intersects s rect"
      using MaxRects_split_snd by blast
    have f: "fst (MaxRects_split fs (fs ! i) rect)"
      using True by (simp add: MaxRects_split_fst)
    have e: "MaxRects_split fs (fs ! i) rect = (True, fs @ ss)"
      using s f by (cases "MaxRects_split fs (fs ! i) rect") simp
    have "i \<le> length (pop i (fs @ ss))"
      using i by (simp add: pop_def)
    then have ih: "\<forall>f \<in> set (split_loop rect i (pop i (fs @ ss))).
        \<exists>g \<in> set (pop i (fs @ ss)). inside f g"
      by (rule Suc.IH)
    have "\<exists>g' \<in> set fs. inside g g'" if "g \<in> set (pop i (fs @ ss))" for g
    proof -
      have "g \<in> set fs \<or> g \<in> set ss"
        using that set_pop [of i "fs @ ss"] by auto
      then show ?thesis
        using ss i inside_refl nth_mem by blast
    qed
    then have "\<forall>f \<in> set (split_loop rect i (pop i (fs @ ss))). \<exists>g \<in> set fs. inside f g"
      using ih inside_trans by blast
    then show ?thesis using True e by simp
  qed
qed

lemma set_prune: "set (prune fs) \<subseteq> set fs"
  by (auto simp: prune_def)

lemma MaxRects_place_free:
  assumes "MaxRects_place sh st s pos rot = (True, st1, s1)"
  shows "\<forall>f \<in> set (free_rects st1).
      \<not> intersects f (box s1) \<and> (\<exists>g \<in> set (free_rects st). inside f g)"
proof -
  define fs where "fs = split_loop (box s1) (length (free_rects st)) (free_rects st)"
  have st1: "free_rects st1 = prune fs"
    using assms by (auto simp: MaxRects_place_def Let_def fs_def split: if_splits)
  have "\<forall>f \<in> set fs. \<not> intersects f (box s1)"
    unfolding fs_def by (rule split_loop_clear) simp_all
  moreover have "\<forall>f \<in> set fs. \<exists>g \<in> set (free_rects st). inside f g"
    unfolding fs_def by (rule split_loop_inside) simp
  ultimately show ?thesis
    using st1 set_prune [of fs] by auto
qed

lemma MaxRects_place_used:
  "used_rects (fst (snd (MaxRects_place sh st s pos rot))) = used_rects st"
  by (simp add: MaxRects_place_def Let_def)

lemma MaxRects_places_free:
  "MaxRects_places sh st calls = (st', ps) \<Longrightarrow>
     used_rects st' = used_rects st \<and>
     (\<forall>f \<in> set (free_rects st').
        (\<exists>g \<in> set (free_rects st). inside f g) \<and> (\<forall>p \<in> set ps. \<not> intersects f (box p)))"
proof (induction calls arbitrary: st st' ps)
  case Nil
  then show ?case using inside_refl by fastforce
next
  case (Cons c calls)
  obtain s pos rot where c: "c = (s, pos, rot)" by (cases c)
  obtain ok st1 s1 where p: "MaxRects_place sh st s pos rot = (ok, st1, s1)"
    by (cases "MaxRects_place sh st s pos rot")
  have u: "used_rects st1 = used_rects st"
    using MaxRects_place_used [of sh st s pos rot] p by simp
  show ?case
  proof (cases ok)
    case False
    then have "st1 = st"
      using p by (auto simp: MaxRects_place_def Let_def split: if_splits)
    moreover have "MaxRects_places sh st1 calls = (st', ps)"
      using Cons.prems c p False by simp
    ultimately show ?thesis using Cons.IH by simp
  next
    case True
    obtain ps1 where r: "MaxRects_places sh st1 calls = (st', ps1)" and ps: "ps = s1 # ps1"
      using Cons.prems c p True by (auto split: prod.splits)
    note ih = Cons.IH [OF r]
    have pl: "\<forall>f \<in> set (free_rects st1).
        \<not> intersects f (box s1) \<and> (\<exists>g \<in> set (free_rects st). inside f g)"
      using MaxRects_place_free [of sh st s pos rot st1 s1] p True by simp
    have "(\<exists>g \<in> set (free_rects st). inside f g) \<and> (\<forall>p \<in> set ps. \<not> intersects f (box p))"
      if f: "f \<in> set (free_rects st')" for f
    proof -
      obtain g where g: "g \<in> set (free_rects st1)" "inside f g"
        using ih f by blast
      have "\<not> intersects g (box s1)" using pl g(1) by blast
      then have "\<not> intersects f (box s1)" using inside_intersects g(2) by blast
      moreover have "\<exists>g' \<in> set (free_rects st). inside f g'"
        using pl g inside_trans by blast
      ultimately show ?thesis using ih f ps by auto
    qed
    then show ?thesis using ih u by simp
  qed
qed

section \<open>MaxRects: pruning\<close>

lemma dominated_iff:
  "dominated fs j \<longleftrightarrow> (\<exists>i < length fs. i \<noteq> j \<and> contains (fs ! i) (fs ! j))"
  by (auto simp: dominated_def list_ex_iff)

lemma prune_nth:
  assumes "i < length (prune fs)"
  shows "\<exists>k < length fs. prune fs ! i = fs ! k \<and> \<not> dominated fs k \<and>
     k = filter (\<lambda>j. \<not> dominated fs j) [0 ..< length fs] ! i"
proof -
  define ks where "ks = filter (\<lambda>j. \<not> dominated fs j) [0 ..< length fs]"
  have i: "i < length ks" using assms by (simp add: prune_def ks_def)
  then have "ks ! i \<in> set ks" by simp
  then have "ks ! i < length fs" "\<not> dominated fs (ks ! i)"
    by (simp_all add: ks_def)
  moreover have "prune fs ! i = fs ! (ks ! i)"
    using i by (simp add: prune_def ks_def)
  ultimately show ?thesis unfolding ks_def by blast
qed

lemma prune_no_containment:
  assumes "i < length (prune fs)" "j < length (prune fs)" "i \<noteq> j"
  shows "\<not> contains (prune fs ! i) (prune fs ! j)"
proof -
  define ks where "ks = filter (\<lambda>j. \<not> dominated fs j) [0 ..< length fs]"
  have d: "distinct ks" by (simp add: ks_def)
  have l: "i < length ks" "j < length ks"
    using assms by (simp_all add: prune_def ks_def)
  have ne: "ks ! i \<noteq> ks ! j"
    using d l assms(3) by (simp add: nth_eq_iff_index_eq)
  obtain a where a: "a < length fs" "prune fs ! i = fs ! a" "a = ks ! i"
    using prune_nth [OF assms(1)] unfolding ks_def by blast
  obtain b where b: "b < length fs" "prune fs ! j = fs ! b" "\<not> dominated fs b" "b = ks ! j"
    using prune_nth [OF assms(2)] unfolding ks_def by blast
  have "\<not> contains (fs ! a) (fs ! b)"
    using b(3) a(1) a(3) b(4) ne by (auto simp: dominated_iff)
  then show ?thesis using a b by simp
qed

lemma contains_refl: "0 \<le> rw a \<Longrightarrow> 0 \<le> rh a \<Longrightarrow> contains a a"
  by (simp add: contains_def in_closed_def right_def bottom_def)

text \<open>In a list without repetition the pruning keeps every rectangle that no different
  rectangle of the list contains.\<close>

lemma prune_keeps_maximal:
  assumes "distinct fs" "v \<in> set fs" "\<forall>g \<in> set fs. g \<noteq> v \<longrightarrow> \<not> contains g v"
  shows "v \<in> set (prune fs)"
proof -
  obtain j where j: "j < length fs" "fs ! j = v"
    using assms(2) by (auto simp: in_set_conv_nth)
  have "\<not> dominated fs j"
  proof
    assume "dominated fs j"
    then obtain i where i: "i < length fs" "i \<noteq> j" "contains (fs ! i) (fs ! j)"
      unfolding dominated_iff by blast
    have "fs ! i \<noteq> fs ! j"
      using assms(1) i(1,2) j(1) by (simp add: nth_eq_iff_index_eq)
    moreover have "fs ! i \<in> set fs"
      using i(1) by simp
    ultimately show False
      using assms(3) i(3) j(2) by auto
  qed
  then have "j \<in> set (filter (\<lambda>j. \<not> dominated fs j) [0 ..< length fs])"
    using j(1) by simp
  then have "fs ! j \<in> set (prune fs)"
    unfolding prune_def by (metis (no_types, lifting) image_eqI set_map)
  then show ?thesis
    using j(2) by simp
qed

lemma count_list_distinct:
  "distinct xs \<Longrightarrow> count_list xs x = (if x \<in> set xs then 1 else 0)"
  by (induction xs) auto

lemma MaxRects_place_no_containment:
  assumes "MaxRects_place sh st s pos rot = (True, st1, s1)"
    and "i < length (free_rects st1)" "j < length (free_rects st1)" "i \<noteq> j"
  shows "\<not> contains (free_rects st1 ! i) (free_rects st1 ! j)"
proof -
  have "\<exists>fs. free_rects st1 = prune fs"
    using assms(1) by (auto simp: MaxRects_place_def Let_def split: if_splits)
  then obtain fs where "free_rects st1 = prune fs" ..
  then show ?thesis
    using prune_no_containment assms(2-4) by simp
qed


section \<open>MaxRects: the split produces no rectangle twice\<close>

lemma MaxRects_split_slivers:
  "snd (MaxRects_split fs free rect) = fs @ slivers free rect"
  by (simp add: slivers_def MaxRects_split_def Let_def)

lemma MaxRects_split_eq:
  "MaxRects_split fs free rect = (intersects free rect, fs @ slivers free rect)"
  using MaxRects_split_fst [of fs free rect] MaxRects_split_slivers [of fs free rect]
  by (cases "MaxRects_split fs free rect") simp

lemma split_loop_closed:
  "i \<le> length fs \<Longrightarrow>
     split_loop rect i fs =
       filter (\<lambda>f. \<not> intersects f rect) (take i fs) @ drop i fs @
       concat (map (\<lambda>f. slivers f rect) (rev (filter (\<lambda>f. intersects f rect) (take i fs))))"
proof (induction i arbitrary: fs)
  case 0
  then show ?case by simp
next
  case (Suc i)
  have i: "i < length fs" using Suc.prems by simp
  have t: "take (Suc i) fs = take i fs @ [fs ! i]"
    using i by (simp add: take_Suc_conv_app_nth)
  show ?case
  proof (cases "intersects (fs ! i) rect")
    case False
    have "drop i fs = fs ! i # drop (Suc i) fs"
      using i by (simp add: Cons_nth_drop_Suc)
    then show ?thesis
      using False Suc.IH [of fs] i t by simp
  next
    case True
    define gs where "gs = pop i (fs @ slivers (fs ! i) rect)"
    have g: "take i gs = take i fs" "drop i gs = drop (Suc i) fs @ slivers (fs ! i) rect"
      "i \<le> length gs"
      using i by (simp_all add: gs_def pop_def)
    have "split_loop rect (Suc i) fs = split_loop rect i gs"
      using True by (simp add: MaxRects_split_eq gs_def)
    then show ?thesis
      using Suc.IH [OF g(3)] g(1,2) True t by simp
  qed
qed

lemma split_loop_all:
  "split_loop rect (length fs) fs =
     filter (\<lambda>f. \<not> intersects f rect) fs @
     concat (map (\<lambda>f. slivers f rect) (rev (filter (\<lambda>f. intersects f rect) fs)))"
  using split_loop_closed [of "length fs" fs rect] by simp

lemma slivers_not_intersects: "\<not> intersects f r \<Longrightarrow> slivers f r = []"
  by (auto simp: slivers_def MaxRects_split_def intersects_def right_def bottom_def)

lemma slivers_intersects:
  assumes "intersects f r"
  shows "slivers f r =
     (if ry f < ry r \<and> ry r < ry f + rh f then [f\<lparr>rh := ry r - ry f\<rparr>] else []) @
     (if ry r + rh r < ry f + rh f
      then [f\<lparr>ry := ry r + rh r, rh := ry f + rh f - (ry r + rh r)\<rparr>] else []) @
     (if rx f < rx r \<and> rx r < rx f + rw f then [f\<lparr>rw := rx r - rx f\<rparr>] else []) @
     (if rx r + rw r < rx f + rw f
      then [f\<lparr>rx := rx r + rw r, rw := rx f + rw f - (rx r + rw r)\<rparr>] else [])"
proof -
  have i: "rx f < rx r + rw r" "rx r < rx f + rw f" "ry f < ry r + rh r" "ry r < ry f + rh f"
    using assms by (simp_all add: intersects_def right_def bottom_def)
  show ?thesis
    using i by (simp add: slivers_def MaxRects_split_def Let_def)
qed

lemma in_slivers:
  assumes "s \<in> set (slivers f r)"
  shows "intersects f r \<and>
    (ry f < ry r \<and> ry r < bottom f \<and>
       rx s = rx f \<and> rw s = rw f \<and> ry s = ry f \<and> rh s = ry r - ry f \<or>
     bottom r < bottom f \<and>
       rx s = rx f \<and> rw s = rw f \<and> ry s = bottom r \<and> rh s = bottom f - bottom r \<or>
     rx f < rx r \<and> rx r < right f \<and>
       ry s = ry f \<and> rh s = rh f \<and> rx s = rx f \<and> rw s = rx r - rx f \<or>
     right r < right f \<and>
       ry s = ry f \<and> rh s = rh f \<and> rx s = right r \<and> rw s = right f - right r)"
proof -
  have i: "intersects f r"
    using assms slivers_not_intersects by fastforce
  have "s \<in> set (if ry f < ry r \<and> ry r < ry f + rh f then [f\<lparr>rh := ry r - ry f\<rparr>] else []) \<or>
     s \<in> set (if ry r + rh r < ry f + rh f
      then [f\<lparr>ry := ry r + rh r, rh := ry f + rh f - (ry r + rh r)\<rparr>] else []) \<or>
     s \<in> set (if rx f < rx r \<and> rx r < rx f + rw f then [f\<lparr>rw := rx r - rx f\<rparr>] else []) \<or>
     s \<in> set (if rx r + rw r < rx f + rw f
      then [f\<lparr>rx := rx r + rw r, rw := rx f + rw f - (rx r + rw r)\<rparr>] else [])"
    using assms unfolding slivers_intersects [OF i] by simp
  then show ?thesis
  proof (elim disjE)
    assume "s \<in> set (if ry f < ry r \<and> ry r < ry f + rh f then [f\<lparr>rh := ry r - ry f\<rparr>] else [])"
    then show ?thesis
      using i by (simp add: right_def bottom_def split: if_splits)
  next
    assume "s \<in> set (if ry r + rh r < ry f + rh f
      then [f\<lparr>ry := ry r + rh r, rh := ry f + rh f - (ry r + rh r)\<rparr>] else [])"
    then show ?thesis
      using i by (simp add: right_def bottom_def split: if_splits)
  next
    assume "s \<in> set (if rx f < rx r \<and> rx r < rx f + rw f then [f\<lparr>rw := rx r - rx f\<rparr>] else [])"
    then show ?thesis
      using i by (simp add: right_def bottom_def split: if_splits)
  next
    assume "s \<in> set (if rx r + rw r < rx f + rw f
      then [f\<lparr>rx := rx r + rw r, rw := rx f + rw f - (rx r + rw r)\<rparr>] else [])"
    then show ?thesis
      using i by (simp add: right_def bottom_def split: if_splits)
  qed
qed

lemma sliver_size:
  assumes "s \<in> set (slivers f r)" "0 \<le> rw f" "0 \<le> rh f"
  shows "0 \<le> rw s \<and> 0 \<le> rh s \<and> contains f s"
  using in_slivers [OF assms(1)] assms(2,3)
  by (auto simp: contains_def in_closed_def intersects_def right_def bottom_def)

lemma slivers_distinct: "distinct (slivers f r)"
proof (cases "intersects f r")
  case False
  then show ?thesis
    by (simp add: slivers_not_intersects)
next
  case True
  define top where "top = f\<lparr>rh := ry r - ry f\<rparr>"
  define bot where "bot = f\<lparr>ry := ry r + rh r, rh := ry f + rh f - (ry r + rh r)\<rparr>"
  define lft where "lft = f\<lparr>rw := rx r - rx f\<rparr>"
  define rgt where "rgt = f\<lparr>rx := rx r + rw r, rw := rx f + rw f - (rx r + rw r)\<rparr>"
  define c3 where "c3 \<longleftrightarrow> rx f < rx r \<and> rx r < rx f + rw f"
  have i: "rx f < rx r + rw r" "rx r < rx f + rw f" "ry f < ry r + rh r" "ry r < ry f + rh f"
    using True by (simp_all add: intersects_def right_def bottom_def)
  have e: "slivers f r =
      (if ry f < ry r \<and> ry r < ry f + rh f then [top] else []) @
      (if ry r + rh r < ry f + rh f then [bot] else []) @
      (if c3 then [lft] else []) @
      (if rx r + rw r < rx f + rw f then [rgt] else [])"
    unfolding top_def bot_def lft_def rgt_def c3_def by (rule slivers_intersects [OF True])
  have "ry top \<noteq> ry bot"
    using i by (simp add: top_def bot_def)
  then have tb: "top \<noteq> bot" by auto
  have "c3 \<Longrightarrow> rw top \<noteq> rw lft"
    by (simp add: top_def lft_def c3_def)
  then have tl: "c3 \<Longrightarrow> top \<noteq> lft" by auto
  have "rx top \<noteq> rx rgt"
    using i by (simp add: top_def rgt_def)
  then have tr: "top \<noteq> rgt" by auto
  have "c3 \<Longrightarrow> rw bot \<noteq> rw lft"
    by (simp add: bot_def lft_def c3_def)
  then have bl: "c3 \<Longrightarrow> bot \<noteq> lft" by auto
  have "rx bot \<noteq> rx rgt"
    using i by (simp add: bot_def rgt_def)
  then have br: "bot \<noteq> rgt" by auto
  have "rx lft \<noteq> rx rgt"
    using i by (simp add: lft_def rgt_def)
  then have lr: "lft \<noteq> rgt" by auto
  show ?thesis
    unfolding e using tb tl tr bl br lr by simp
qed

lemma contains_iff:
  "0 \<le> rw b \<Longrightarrow> 0 \<le> rh b \<Longrightarrow>
     contains a b \<longleftrightarrow> rx a \<le> rx b \<and> right b \<le> right a \<and> ry a \<le> ry b \<and> bottom b \<le> bottom a"
  by (auto simp: contains_def in_closed_def right_def bottom_def)

lemma slivers_disjoint:
  assumes sf: "s \<in> set (slivers f r)" and sg: "s \<in> set (slivers g r)"
    and nn: "0 \<le> rw f" "0 \<le> rh f" "0 \<le> rw g" "0 \<le> rh g"
    and nc: "\<not> contains f g" "\<not> contains g f"
  shows False
proof -
  have nf: "\<not> (rx f \<le> rx g \<and> rx g + rw g \<le> rx f + rw f \<and>
      ry f \<le> ry g \<and> ry g + rh g \<le> ry f + rh f)"
    using nc(1) nn by (simp add: contains_iff right_def bottom_def)
  have ng: "\<not> (rx g \<le> rx f \<and> rx f + rw f \<le> rx g + rw g \<and>
      ry g \<le> ry f \<and> ry f + rh f \<le> ry g + rh g)"
    using nc(2) nn by (simp add: contains_iff right_def bottom_def)
  note F = in_slivers [OF sf, unfolded intersects_def right_def bottom_def]
  note G = in_slivers [OF sg, unfolded intersects_def right_def bottom_def]
  from F G nf ng show False
    by (elim conjE disjE) arith+
qed

lemma distinct_concat_map:
  "distinct xs \<Longrightarrow> \<forall>x \<in> set xs. distinct (S x) \<Longrightarrow>
     \<forall>x \<in> set xs. \<forall>y \<in> set xs. x \<noteq> y \<longrightarrow> set (S x) \<inter> set (S y) = {} \<Longrightarrow>
     distinct (concat (map S xs))"
  by (induction xs) auto

lemma split_loop_distinct:
  assumes "free_ok fs"
  shows "distinct (split_loop r (length fs) fs)"
proof -
  define A where "A = filter (\<lambda>f. \<not> intersects f r) fs"
  define B where "B = rev (filter (\<lambda>f. intersects f r) fs)"
  have d: "distinct fs" and nn: "\<forall>f \<in> set fs. 0 \<le> rw f \<and> 0 \<le> rh f"
    and nc: "\<forall>f \<in> set fs. \<forall>g \<in> set fs. f \<noteq> g \<longrightarrow> \<not> contains f g"
    using assms by (simp_all add: free_ok_def)
  have "distinct A" "distinct B"
    using d by (simp_all add: A_def B_def)
  moreover have "set (slivers f r) \<inter> set (slivers g r) = {}"
    if "f \<in> set B" "g \<in> set B" "f \<noteq> g" for f g
  proof -
    have "f \<in> set fs" "g \<in> set fs" using that by (simp_all add: B_def)
    then have "\<not> contains f g" "\<not> contains g f" "0 \<le> rw f" "0 \<le> rh f" "0 \<le> rw g" "0 \<le> rh g"
      using nc nn that(3) by auto
    then show ?thesis
      using slivers_disjoint [of _ f r g] by blast
  qed
  then have "distinct (concat (map (\<lambda>f. slivers f r) B))"
    using \<open>distinct B\<close> slivers_distinct by (intro distinct_concat_map) auto
  moreover have "g \<notin> set A" if "f \<in> set B" "g \<in> set (slivers f r)" for f g
  proof
    assume a: "g \<in> set A"
    have f: "f \<in> set fs" "intersects f r" using that(1) by (simp_all add: B_def)
    have g: "g \<in> set fs" "\<not> intersects g r" using a by (simp_all add: A_def)
    have "contains f g"
      using sliver_size [OF that(2)] nn f(1) by simp
    moreover have "f \<noteq> g" using f(2) g(2) by auto
    ultimately show False using nc f(1) g(1) by blast
  qed
  then have "set A \<inter> set (concat (map (\<lambda>f. slivers f r) B)) = {}"
    by auto
  ultimately have "distinct (A @ concat (map (\<lambda>f. slivers f r) B))"
    by simp
  then show ?thesis
    by (simp add: split_loop_all A_def B_def)
qed

lemma split_loop_size:
  assumes "\<forall>f \<in> set fs. 0 \<le> rw f \<and> 0 \<le> rh f"
  shows "\<forall>f \<in> set (split_loop r (length fs) fs). 0 \<le> rw f \<and> 0 \<le> rh f"
  using assms sliver_size by (auto simp: split_loop_all)

lemma free_ok_prune:
  assumes "\<forall>f \<in> set fs. 0 \<le> rw f \<and> 0 \<le> rh f"
  shows "free_ok (prune fs)"
proof -
  have nn: "\<forall>f \<in> set (prune fs). 0 \<le> rw f \<and> 0 \<le> rh f"
    using assms set_prune [of fs] by blast
  have ne: "prune fs ! i \<noteq> prune fs ! j"
    if "i < length (prune fs)" "j < length (prune fs)" "i \<noteq> j" for i j
  proof
    assume e: "prune fs ! i = prune fs ! j"
    have "contains (prune fs ! j) (prune fs ! j)"
      using nn that(2) by (intro contains_refl) simp_all
    then show False
      using prune_no_containment [OF that] e by simp
  qed
  then have "distinct (prune fs)"
    by (simp add: distinct_conv_nth)
  moreover have "\<not> contains f g"
    if f: "f \<in> set (prune fs)" and g: "g \<in> set (prune fs)" and fg: "f \<noteq> g" for f g
  proof -
    obtain i j where "i < length (prune fs)" "f = prune fs ! i"
      "j < length (prune fs)" "g = prune fs ! j"
      using f g by (metis in_set_conv_nth)
    then show ?thesis
      using prune_no_containment [of i fs j] fg by auto
  qed
  ultimately show ?thesis
    using nn by (simp add: free_ok_def)
qed

lemma MaxRects_place_free_ok:
  assumes "free_ok (free_rects st)"
  shows "free_ok (free_rects (fst (snd (MaxRects_place sh st s pos rot))))"
proof (cases "fst (MaxRects_place sh st s pos rot)")
  case False
  then have "fst (snd (MaxRects_place sh st s pos rot)) = st"
    by (simp add: MaxRects_place_def Let_def split: if_splits)
  then show ?thesis
    using assms by simp
next
  case True
  define r where "r = box (snd (snd (MaxRects_place sh st s pos rot)))"
  have nn: "\<forall>f \<in> set (free_rects st). 0 \<le> rw f \<and> 0 \<le> rh f"
    using assms by (simp add: free_ok_def)
  have "free_rects (fst (snd (MaxRects_place sh st s pos rot))) =
      prune (split_loop r (length (free_rects st)) (free_rects st))"
    using True unfolding r_def by (simp add: MaxRects_place_def Let_def split: if_splits)
  moreover have "free_ok (prune (split_loop r (length (free_rects st)) (free_rects st)))"
    by (rule free_ok_prune) (rule split_loop_size [OF nn])
  ultimately show ?thesis
    by simp
qed

lemma MaxRects_places_free_ok:
  "free_ok (free_rects st) \<Longrightarrow> free_ok (free_rects (fst (MaxRects_places sh st calls)))"
proof (induction calls arbitrary: st)
  case Nil
  then show ?case by simp
next
  case (Cons c calls)
  obtain s pos rot where c: "c = (s, pos, rot)" by (cases c)
  obtain ok st1 s1 where p: "MaxRects_place sh st s pos rot = (ok, st1, s1)"
    by (cases "MaxRects_place sh st s pos rot")
  have "free_ok (free_rects st1)"
    using MaxRects_place_free_ok [OF Cons.prems, of sh s pos rot] p by simp
  then have "free_ok (free_rects (fst (MaxRects_places sh st1 calls)))"
    by (rule Cons.IH)
  then show ?case
    using c p by (cases ok) (auto split: prod.splits)
qed

text \<open>
  On a sheet of non-negative size, the free list that a cleared layout has after any
  sequence of calls of \<^verbatim>\<open>place\<close> holds no rectangle twice and none that another one
  contains, and the split for the next sprite produces no rectangle twice.
\<close>

lemma no_duplicates_from_clear:
  assumes "0 \<le> fst (sheet_size sh)" "0 \<le> snd (sheet_size sh)"
    and "MaxRects_places sh (MaxRects_clear sh) calls = (st, ps)"
  shows "free_ok (free_rects st) \<and>
     distinct (split_loop r (length (free_rects st)) (free_rects st))"
proof -
  have "free_ok (free_rects (MaxRects_clear sh))"
    using assms(1,2) by (simp add: free_ok_def MaxRects_clear_def Rect_def)
  then have "free_ok (free_rects st)"
    using MaxRects_places_free_ok [of "MaxRects_clear sh" sh calls] assms(3) by simp
  then show ?thesis
    using split_loop_distinct by simp
qed

section \<open>A single sprite on a cleared layout\<close>

lemma MaxRects_search_clear_None:
  "fst (MaxRects_search sh (MaxRects_clear sh) r) = None \<longleftrightarrow>
     \<not> fits sh (rw r) (rh r) \<and> \<not> (sheet_rotate sh \<and> fits sh (rh r) (rw r))"
  by (auto simp: MaxRects_search_def MaxRects_clear_def search_step_def Rect_def fits_def
      improves_def Let_def)

lemma MaxRects_search_clear_Some:
  assumes "MaxRects_search sh (MaxRects_clear sh) r = (Some (pos, bssf, blsf), rot)"
  shows "rx pos = 0 \<and> ry pos = 0 \<and> (rot \<longrightarrow> sheet_rotate sh) \<and>
     (if rot then rw pos = rh r \<and> rh pos = rw r else rw pos = rw r \<and> rh pos = rh r) \<and>
     fits sh (rw pos) (rh pos)"
  using assms
  by (auto simp: MaxRects_search_def MaxRects_clear_def search_step_def Rect_def fits_def
      improves_def Let_def split: if_splits)

lemma MaxRects_add_single_too_large:
  assumes "\<not> fits sh (rw (box s)) (rh (box s))"
    and "\<not> (sheet_rotate sh \<and> fits sh (rh (box s)) (rw (box s)))"
  shows "MaxRects_add sh (MaxRects_clear sh) [s] = Some (Inr (MaxRects_clear sh, [], [s]))"
proof -
  have "fst (MaxRects_search sh (MaxRects_clear sh) (box s)) = None"
    using assms by (simp add: MaxRects_search_clear_None)
  then have "MaxRects_get_best_step sh (MaxRects_clear sh) 0 s None = (s, None)"
    by (cases "MaxRects_search sh (MaxRects_clear sh) (box s)")
      (simp add: MaxRects_get_best_step_def)
  then show ?thesis
    by (simp add: MaxRects_add_def Layout_add_def add_body_def MaxRects_get_best_def)
qed

lemma MaxRects_add_single_fits:
  assumes "fits sh (rw (box s)) (rh (box s)) \<or> (sheet_rotate sh \<and> fits sh (rh (box s)) (rw (box s)))"
    and "\<And>r. \<not> sheet_exclude sh r"
  shows "\<exists>st1 s1. MaxRects_add sh (MaxRects_clear sh) [s] = Some (Inr (st1, [s1], [])) \<and>
     rx (box s1) = 0 \<and> ry (box s1) = 0 \<and> in_bin sh (box s1)"
proof -
  obtain b rot where f: "MaxRects_search sh (MaxRects_clear sh) (box s) = (b, rot)"
    by (cases "MaxRects_search sh (MaxRects_clear sh) (box s)")
  have "b \<noteq> None"
    using MaxRects_search_clear_None [of sh "box s"] f assms(1) by auto
  then obtain pos bssf blsf where b: "b = Some (pos, bssf, blsf)"
    by (cases b) auto
  note p = MaxRects_search_clear_Some [OF f [unfolded b]]
  define s1 where "s1 = (if rot then sprite_rotate s else s)"
  have chk: "check sh pos"
    using p assms(2) by (simp add: check_def in_bin_def fits_def right_def bottom_def)
  have g: "MaxRects_get_best_step sh (MaxRects_clear sh) 0 s None =
      (s1, Some ((0, pos, rotated s1), (bssf, blsf)))"
    using f b chk p by (simp add: MaxRects_get_best_step_def s1_def Let_def)
  define s2 where "s2 = s1\<lparr>box := (box s1)\<lparr>rx := rx pos, ry := ry pos\<rparr>\<rparr>"
  have bx: "box s2 = pos"
    using p by (cases rot) (simp_all add: s2_def s1_def sprite_rotate_def)
  obtain st1 where pl: "MaxRects_place sh (MaxRects_clear sh) s1 pos (rotated s1) = (True, st1, s2)"
    using chk bx by (simp add: MaxRects_place_def Let_def s2_def)
  have "MaxRects_add sh (MaxRects_clear sh) [s] = Some (Inr (st1, [s2], []))"
    using g pl
    by (simp add: MaxRects_add_def Layout_add_def add_body_def MaxRects_get_best_def pop_def)
  moreover have "in_bin sh (box s2)"
    using chk bx by (simp add: check_def)
  ultimately show ?thesis using bx p by auto
qed

lemma ShelfLayout_add_single_too_large:
  assumes "\<not> fits sh (rw (box s)) (rh (box s))"
  shows "ShelfLayout_add sh ShelfLayout_clear [s] = Some (Inr (ShelfLayout_clear, [], [s]))"
  using assms
  by (auto simp: ShelfLayout_add_def Layout_add_def add_body_def ShelfLayout_get_best_def
      ShelfLayout_get_best_step_def fits_def Let_def)

lemma ShelfLayout_add_single_fits:
  assumes "fits sh (rw (box s)) (rh (box s))" and "\<not> sheet_rotate sh"
  shows "\<exists>st1 s1. ShelfLayout_add sh ShelfLayout_clear [s] = Some (Inr (st1, [s1], [])) \<and>
     box s1 = (box s)\<lparr>rx := 0, ry := 0\<rparr>"
  using assms
  by (simp add: ShelfLayout_add_def Layout_add_def add_body_def ShelfLayout_get_best_def
      ShelfLayout_get_best_step_def fits_def Let_def ShelfLayout_clear_def ShelfLayout_place_def
      Shelf_place_def Shelf_def pop_def)

section \<open>Sound placements without rotation\<close>

subsection \<open>MaxRects\<close>

lemma intersects_sym: "intersects a b = intersects b a"
  by (auto simp: intersects_def)

lemma disjoint_sprites_snoc:
  "disjoint_sprites (ss @ [t]) \<longleftrightarrow>
     disjoint_sprites ss \<and> (\<forall>s \<in> set ss. \<not> intersects (box s) (box t))"
  by (induction ss) (auto simp: list_all_iff)

lemma search_step_found_ok:
  assumes "found_ok sh fs r acc" "f \<in> set fs"
  shows "found_ok sh fs r (search_step sh r acc f)"
proof -
  have a: "inside (Rect (rw r) (rh r) (rx f) (ry f)) f" if "rw r \<le> rw f" "rh r \<le> rh f"
    using that by (simp add: inside_def Rect_def right_def bottom_def)
  have b: "inside (Rect (rh r) (rw r) (rx f) (ry f)) f" if "rw r \<le> rh f" "rh r \<le> rw f"
    using that by (simp add: inside_def Rect_def right_def bottom_def)
  show ?thesis
    using assms a b
    by (auto simp: found_ok_def search_step_def Let_def Rect_def split: option.splits)
qed

lemma foldl_search_step_found_ok:
  "found_ok sh fs r acc \<Longrightarrow> set gs \<subseteq> set fs \<Longrightarrow>
     found_ok sh fs r (foldl (search_step sh r) acc gs)"
  by (induction gs arbitrary: acc) (simp_all add: search_step_found_ok)

lemma MaxRects_search_found_ok:
  "found_ok sh (free_rects st) r (MaxRects_search sh st r)"
  unfolding MaxRects_search_def
  by (rule foldl_search_step_found_ok) (simp_all add: found_ok_def)

lemma MaxRects_get_best_step_choice:
  assumes "MaxRects_get_best_step sh st i spr best = (spr1, best1)"
  shows "best1 = best \<or>
     (\<exists>pos sc. best1 = Some ((i, pos, rotated spr1), sc) \<and>
        good_choice sh st spr1 pos (rotated spr1))"
proof -
  obtain b rot where f: "MaxRects_search sh st (box spr) = (b, rot)"
    by (cases "MaxRects_search sh st (box spr)")
  have ok: "found_ok sh (free_rects st) (box spr) (b, rot)"
    using MaxRects_search_found_ok [of sh st "box spr"] f by simp
  show ?thesis
  proof (cases b)
    case None
    then show ?thesis using assms f by (simp add: MaxRects_get_best_step_def)
  next
    case (Some t)
    obtain pos bssf blsf where t: "t = (pos, bssf, blsf)" by (cases t)
    have p: "\<exists>f \<in> set (free_rects st). inside pos f"
      "\<not> sheet_rotate sh \<longrightarrow> rw pos = rw (box spr) \<and> rh pos = rh (box spr) \<and> \<not> rot"
      using ok Some t by (auto simp: found_ok_def)
    have "good_choice sh st (if rot then sprite_rotate spr else spr) pos
        (rotated (if rot then sprite_rotate spr else spr))"
      using p by (auto simp: good_choice_def)
    then show ?thesis
      using assms f Some t
      by (auto simp: MaxRects_get_best_step_def Let_def split: if_splits)
  qed
qed

lemma MaxRects_get_best_loop_choice:
  "MaxRects_get_best_loop sh st i sprites best = (sprites1, best2) \<Longrightarrow>
     best2 = best \<or>
     (\<exists>k pos rot sc. best2 = Some ((i + k, pos, rot), sc) \<and> k < length sprites1 \<and>
        good_choice sh st (sprites1 ! k) pos rot)"
proof (induction sprites arbitrary: i best sprites1 best2)
  case Nil
  then show ?case by simp
next
  case (Cons spr sprites)
  obtain spr1 best1 where s: "MaxRects_get_best_step sh st i spr best = (spr1, best1)"
    by (cases "MaxRects_get_best_step sh st i spr best")
  obtain rest1 best3 where l: "MaxRects_get_best_loop sh st (Suc i) sprites best1 = (rest1, best3)"
    by (cases "MaxRects_get_best_loop sh st (Suc i) sprites best1")
  have r: "sprites1 = spr1 # rest1" "best2 = best3"
    using Cons.prems s l by simp_all
  from Cons.IH [OF l] show ?case
  proof
    assume e: "best3 = best1"
    from MaxRects_get_best_step_choice [OF s] show ?thesis
    proof
      assume "best1 = best"
      then show ?thesis using e r by simp
    next
      assume "\<exists>pos sc. best1 = Some ((i, pos, rotated spr1), sc) \<and>
          good_choice sh st spr1 pos (rotated spr1)"
      then obtain pos sc where "best1 = Some ((i, pos, rotated spr1), sc)"
        "good_choice sh st spr1 pos (rotated spr1)" by blast
      then have "best2 = Some ((i + 0, pos, rotated spr1), sc) \<and> 0 < length sprites1 \<and>
          good_choice sh st (sprites1 ! 0) pos (rotated spr1)"
        using e r by simp
      then show ?thesis by blast
    qed
  next
    assume "\<exists>k pos rot sc. best3 = Some ((Suc i + k, pos, rot), sc) \<and> k < length rest1 \<and>
        good_choice sh st (rest1 ! k) pos rot"
    then obtain k pos rot sc where "best3 = Some ((Suc i + k, pos, rot), sc)" "k < length rest1"
      "good_choice sh st (rest1 ! k) pos rot" by blast
    then have "best2 = Some ((i + Suc k, pos, rot), sc) \<and> Suc k < length sprites1 \<and>
        good_choice sh st (sprites1 ! Suc k) pos rot"
      using r by simp
    then show ?thesis by blast
  qed
qed

lemma MaxRects_get_best_choice:
  assumes "MaxRects_get_best sh st sprites = (sprites1, Some (i, pos, rot))"
  shows "good_choice sh st (sprites1 ! i) pos rot"
proof -
  obtain best where l: "MaxRects_get_best_loop sh st 0 sprites None = (sprites1, best)"
    and b: "map_option fst best = Some (i, pos, rot)"
    using assms by (auto simp: MaxRects_get_best_def split: prod.splits)
  from MaxRects_get_best_loop_choice [OF l] b show ?thesis
    by auto
qed

lemma MaxRects_place_False:
  "MaxRects_place sh st s pos rot = (False, st1, s1) \<Longrightarrow> st1 = st"
  by (auto simp: MaxRects_place_def Let_def split: if_splits)

lemma MaxRects_place_chosen:
  assumes "MaxRects_place sh st s pos rot = (True, st1, s1)" and "rot = rotated s"
  shows "in_bin sh (box s1) \<and> rx (box s1) = rx pos \<and> ry (box s1) = ry pos \<and>
     rw (box s1) = rw (box s) \<and> rh (box s1) = rh (box s)"
  using assms by (auto simp: MaxRects_place_def Let_def check_def split: if_splits)

lemma MaxRects_add_body_Continue_ok:
  assumes inv: "placed_ok sh st placed"
    and c: "add_body (MaxRects_get_best sh) (MaxRects_place sh) st placed remain =
      Continue st1 placed1 remain1"
  shows "placed_ok sh st1 placed1"
proof -
  obtain r1 b where g: "MaxRects_get_best sh st remain = (r1, b)"
    by (cases "MaxRects_get_best sh st remain")
  from c g obtain i pos rot where b: "b = Some (i, pos, rot)" and i: "i < length r1"
    by (auto simp: add_body_def split: option.splits if_splits)
  obtain ok st2 spr where p: "MaxRects_place sh st (r1 ! i) pos rot = (ok, st2, spr)"
    by (cases "MaxRects_place sh st (r1 ! i) pos rot")
  from c g b i p have ok: "ok" "st2 = st1" "placed1 = placed @ [spr]"
    by (auto simp: add_body_def split: if_splits bool.splits)
  have ch: "good_choice sh st (r1 ! i) pos rot"
    using MaxRects_get_best_choice g b by simp
  have pl: "MaxRects_place sh st (r1 ! i) pos rot = (True, st1, spr)"
    using p ok by simp
  have s: "in_bin sh (box spr)" "rx (box spr) = rx pos" "ry (box spr) = ry pos"
    "rw (box spr) = rw (box (r1 ! i))" "rh (box spr) = rh (box (r1 ! i))"
    using MaxRects_place_chosen [OF pl] ch by (simp_all add: good_choice_def)
  have fr: "\<forall>f \<in> set (free_rects st1).
      \<not> intersects f (box spr) \<and> (\<exists>g \<in> set (free_rects st). inside f g)"
    using MaxRects_place_free [OF pl] .
  have bin: "\<forall>p \<in> set placed1. in_bin sh (box p)"
    using inv s(1) ok(3) by (auto simp: placed_ok_def)
  have "disjoint_sprites placed1 \<and>
      (\<forall>p \<in> set placed1. \<forall>f \<in> set (free_rects st1). \<not> intersects f (box p))"
    if nr: "\<not> sheet_rotate sh"
  proof -
    have old: "disjoint_sprites placed"
      "\<forall>p \<in> set placed. \<forall>f \<in> set (free_rects st). \<not> intersects f (box p)"
      using inv nr by (simp_all add: placed_ok_def)
    have "box spr = pos"
      using s ch nr by (simp add: good_choice_def)
    then obtain f where f: "f \<in> set (free_rects st)" "inside (box spr) f"
      using ch by (auto simp: good_choice_def)
    have new: "\<not> intersects (box p) (box spr)" if "p \<in> set placed" for p
    proof
      assume "intersects (box p) (box spr)"
      then have "intersects (box spr) (box p)" by (simp add: intersects_sym)
      then have "intersects f (box p)" using f(2) inside_intersects by blast
      then show False using old(2) that f(1) by blast
    qed
    have "\<not> intersects f1 (box p)" if mp: "p \<in> set placed" and mf: "f1 \<in> set (free_rects st1)" for p f1
    proof -
      obtain g where "g \<in> set (free_rects st)" "inside f1 g"
        using fr mf by blast
      then show ?thesis using old(2) mp inside_intersects by blast
    qed
    then show ?thesis
      using old(1) new fr ok(3) by (auto simp: disjoint_sprites_snoc)
  qed
  then show ?thesis using bin by (simp add: placed_ok_def)
qed

lemma MaxRects_add_body_Break_ok:
  assumes inv: "placed_ok sh st placed"
    and c: "add_body (MaxRects_get_best sh) (MaxRects_place sh) st placed remain =
      Break st1 placed1 remain1"
  shows "placed_ok sh st1 placed1"
proof -
  obtain r1 b where g: "MaxRects_get_best sh st remain = (r1, b)"
    by (cases "MaxRects_get_best sh st remain")
  have "st1 = st \<and> placed1 = placed"
  proof (cases b)
    case None
    then show ?thesis using c g by (simp add: add_body_def)
  next
    case (Some t)
    obtain i pos rot where t: "t = (i, pos, rot)" by (cases t)
    obtain ok st2 spr where p: "MaxRects_place sh st (r1 ! i) pos rot = (ok, st2, spr)"
      by (cases "MaxRects_place sh st (r1 ! i) pos rot")
    from c g Some t p have "\<not> ok" "st2 = st1" "placed1 = placed"
      by (auto simp: add_body_def split: if_splits bool.splits)
    then show ?thesis using MaxRects_place_False [of sh st "r1 ! i" pos rot st1 spr] p by simp
  qed
  then show ?thesis using inv by simp
qed

text \<open>
  Every sprite that \<^verbatim>\<open>MaxRectsLayout.add\<close> places lies in the bin; when the sheet does
  not allow rotation, no two of them intersect.
\<close>

lemma MaxRects_add_sound:
  assumes "MaxRects_add sh st sprites = Some (Inr (st1, placed, remain))"
  shows "(\<forall>p \<in> set placed. in_bin sh (box p)) \<and>
     (\<not> sheet_rotate sh \<longrightarrow> disjoint_sprites placed)"
proof -
  have "placed_ok sh st []"
    by (simp add: placed_ok_def)
  moreover have "add_loop (MaxRects_get_best sh) (MaxRects_place sh) (length sprites) st []
      sprites = Some (Inr (st1, placed, remain))"
    using assms by (simp add: MaxRects_add_def Layout_add_def)
  ultimately have "placed_ok sh st1 placed"
    by (rule add_loop_invariant [where I = "\<lambda>st placed remain. placed_ok sh st placed",
          rotated 2])
      (erule (1) MaxRects_add_body_Continue_ok, erule (1) MaxRects_add_body_Break_ok)
  then show ?thesis by (simp add: placed_ok_def)
qed

subsection \<open>Shelf\<close>

lemma shelf_step_acc_ok:
  assumes "\<not> sheet_rotate sh" "shelf_acc_ok sh st spr acc"
    and "k < length (shelves st)"
  shows "shelf_acc_ok sh st spr (shelf_step sh acc (k, shelves st ! k))"
  using assms
  by (auto simp: shelf_acc_ok_def shelf_step_def shelf_choice_def Let_def split: option.splits)

lemma foldl_shelf_step_acc_ok:
  assumes "\<not> sheet_rotate sh"
  shows "shelf_acc_ok sh st spr acc \<Longrightarrow>
     \<forall>ks \<in> set kss. fst ks < length (shelves st) \<and> snd ks = shelves st ! fst ks \<Longrightarrow>
     shelf_acc_ok sh st spr (foldl (shelf_step sh) acc kss)"
proof (induction kss arbitrary: acc)
  case Nil
  then show ?case by simp
next
  case (Cons ks kss)
  obtain k s where ks: "ks = (k, s)" by (cases ks)
  have "k < length (shelves st)" "s = shelves st ! k"
    using Cons.prems(2) ks by simp_all
  then have "shelf_acc_ok sh st spr (shelf_step sh acc ks)"
    using shelf_step_acc_ok [OF assms Cons.prems(1)] ks by simp
  then show ?case
    using Cons.IH Cons.prems(2) by simp
qed

lemma ShelfLayout_get_best_step_choice:
  assumes nr: "\<not> sheet_rotate sh"
    and s: "ShelfLayout_get_best_step sh st i spr best = (spr1, best1)"
  shows "spr1 = spr \<and>
     (best1 = best \<or>
      (\<exists>pos sc. best1 = Some ((i, pos, rotated spr), sc) \<and> shelf_choice sh st spr pos))"
proof -
  obtain spr2 bs where f:
    "foldl (shelf_step sh) (spr, None) (enumerate 0 (shelves st)) = (spr2, bs)"
    by (cases "foldl (shelf_step sh) (spr, None) (enumerate 0 (shelves st))")
  have "shelf_acc_ok sh st spr (foldl (shelf_step sh) (spr, None) (enumerate 0 (shelves st)))"
    by (rule foldl_shelf_step_acc_ok [OF nr])
      (auto simp: shelf_acc_ok_def in_set_enumerate_eq)
  then have a: "spr2 = spr"
    "case bs of None \<Rightarrow> True | Some (pos, sc) \<Rightarrow> shelf_choice sh st spr pos"
    using f by (auto simp: shelf_acc_ok_def split: option.splits)
  show ?thesis
  proof (cases bs)
    case None
    then show ?thesis
      using s f a(1) nr
      by (auto simp: ShelfLayout_get_best_step_def Let_def shelf_choice_def
          split: if_splits option.splits)
  next
    case (Some t)
    obtain pos sc where t: "t = (pos, sc)" by (cases t)
    have "shelf_choice sh st spr pos"
      using a(2) Some t by simp
    then show ?thesis
      using s f a(1) nr Some t
      by (auto simp: ShelfLayout_get_best_step_def Let_def split: if_splits option.splits)
  qed
qed

lemma ShelfLayout_get_best_loop_choice:
  assumes nr: "\<not> sheet_rotate sh"
  shows "ShelfLayout_get_best_loop sh st i sprites best = (sprites1, best2) \<Longrightarrow>
     sprites1 = sprites \<and>
     (best2 = best \<or>
      (\<exists>k pos sc. best2 = Some ((i + k, pos, rotated (sprites ! k)), sc) \<and>
         k < length sprites \<and> shelf_choice sh st (sprites ! k) pos))"
proof (induction sprites arbitrary: i best sprites1 best2)
  case Nil
  then show ?case by simp
next
  case (Cons spr sprites)
  obtain spr1 best1 where s: "ShelfLayout_get_best_step sh st i spr best = (spr1, best1)"
    by (cases "ShelfLayout_get_best_step sh st i spr best")
  obtain rest1 best3 where l: "ShelfLayout_get_best_loop sh st (Suc i) sprites best1 = (rest1, best3)"
    by (cases "ShelfLayout_get_best_loop sh st (Suc i) sprites best1")
  have r: "sprites1 = spr1 # rest1" "best2 = best3"
    using Cons.prems s l by simp_all
  note st = ShelfLayout_get_best_step_choice [OF nr s]
  note ih = Cons.IH [OF l]
  have eq: "sprites1 = spr # sprites"
    using r st ih by simp
  from ih have "best3 = best1 \<or>
      (\<exists>k pos sc. best3 = Some ((Suc i + k, pos, rotated (sprites ! k)), sc) \<and>
         k < length sprites \<and> shelf_choice sh st (sprites ! k) pos)" by simp
  then show ?case
  proof
    assume e: "best3 = best1"
    from st have "best1 = best \<or>
        (\<exists>pos sc. best1 = Some ((i, pos, rotated spr), sc) \<and> shelf_choice sh st spr pos)"
      by simp
    then show ?thesis
    proof
      assume "best1 = best"
      then show ?thesis using e r eq by simp
    next
      assume "\<exists>pos sc. best1 = Some ((i, pos, rotated spr), sc) \<and> shelf_choice sh st spr pos"
      then obtain pos sc where "best1 = Some ((i, pos, rotated spr), sc)"
        "shelf_choice sh st spr pos" by blast
      then have "best2 = Some ((i + 0, pos, rotated ((spr # sprites) ! 0)), sc) \<and>
          0 < length (spr # sprites) \<and> shelf_choice sh st ((spr # sprites) ! 0) pos"
        using e r by simp
      then show ?thesis using eq by blast
    qed
  next
    assume "\<exists>k pos sc. best3 = Some ((Suc i + k, pos, rotated (sprites ! k)), sc) \<and>
        k < length sprites \<and> shelf_choice sh st (sprites ! k) pos"
    then obtain k pos sc where "best3 = Some ((Suc i + k, pos, rotated (sprites ! k)), sc)"
      "k < length sprites" "shelf_choice sh st (sprites ! k) pos" by blast
    then have "best2 = Some ((i + Suc k, pos, rotated ((spr # sprites) ! Suc k)), sc) \<and>
        Suc k < length (spr # sprites) \<and> shelf_choice sh st ((spr # sprites) ! Suc k) pos"
      using r by simp
    then show ?thesis using eq by blast
  qed
qed

lemma ShelfLayout_get_best_choice:
  assumes nr: "\<not> sheet_rotate sh"
    and g: "ShelfLayout_get_best sh st sprites = (sprites1, Some (i, pos, rot))"
  shows "sprites1 = sprites \<and> i < length sprites \<and> rot = rotated (sprites ! i) \<and>
     shelf_choice sh st (sprites ! i) pos"
proof -
  obtain best where l: "ShelfLayout_get_best_loop sh st 0 sprites None = (sprites1, best)"
    and b: "map_option fst best = Some (i, pos, rot)"
    using g by (auto simp: ShelfLayout_get_best_def split: prod.splits)
  from ShelfLayout_get_best_loop_choice [OF nr l] b show ?thesis
    by auto
qed

lemma ShelfLayout_get_best_None:
  assumes nr: "\<not> sheet_rotate sh"
    and g: "ShelfLayout_get_best sh st sprites = (sprites1, None)"
  shows "sprites1 = sprites"
proof -
  obtain best where l: "ShelfLayout_get_best_loop sh st 0 sprites None = (sprites1, best)"
    using g by (auto simp: ShelfLayout_get_best_def split: prod.splits)
  from ShelfLayout_get_best_loop_choice [OF nr l] show ?thesis
    by simp
qed

lemma ShelfLayout_place_Existing_sound:
  assumes inv: "shelf_inv sh st"
    and k: "k < length (shelves st)"
    and fitw: "shelf_size (shelves st ! k) + rw (box spr) \<le> fst (sheet_size sh)"
    and fith: "rh (box spr) \<le> shelf_max (shelves st ! k)"
    and wf: "0 \<le> rw (box spr)" "0 \<le> rh (box spr)"
  shows "\<exists>st1 spr1. ShelfLayout_place st spr (Existing k) (rotated spr) = (True, st1, spr1) \<and>
     shelf_inv sh st1 \<and> in_bin sh (box spr1) \<and> on_shelves st1 (box spr1) \<and>
     rw (box spr1) = rw (box spr) \<and> rh (box spr1) = rh (box spr) \<and>
     (\<forall>b. on_shelves st b \<longrightarrow> on_shelves st1 b \<and> \<not> intersects b (box spr1))"
proof -
  define s where "s = shelves st ! k"
  define spr1 where "spr1 = spr\<lparr>box := (box spr)\<lparr>rx := shelf_size s, ry := shelf_start s\<rparr>\<rparr>"
  define s1 where "s1 = s\<lparr>shelf_rects := shelf_rects s @ [spr1],
      shelf_size := shelf_size s + rw (box spr)\<rparr>"
  define st1 where "st1 = st\<lparr>shelves := (shelves st)[k := s1]\<rparr>"
  have sk: "s \<in> set (shelves st)"
    using k by (simp add: s_def)
  have sp: "0 \<le> shelf_start s" "0 \<le> shelf_size s" "0 \<le> shelf_max s"
    "shelf_start s + shelf_max s \<le> layout_size st" "layout_size st \<le> snd (sheet_size sh)"
    using inv sk by (auto simp: shelf_inv_def)
  have sp1: "Shelf_place s spr = (s1, spr1)"
    using fith by (simp add: Shelf_place_def Let_def s1_def spr1_def s_def)
  have "max (layout_size st) (shelf_start s1 + shelf_max s1) = layout_size st"
    using sp(4) by (simp add: s1_def)
  then have pl: "ShelfLayout_place st spr (Existing k) (rotated spr) = (True, st1, spr1)"
    using sp1 by (simp add: ShelfLayout_place_def st1_def s_def [symmetric])
  have len: "length (shelves st1) = length (shelves st)"
    by (simp add: st1_def)
  have nth: "shelf_start (shelves st1 ! i) = shelf_start (shelves st ! i) \<and>
      shelf_max (shelves st1 ! i) = shelf_max (shelves st ! i) \<and>
      shelf_size (shelves st ! i) \<le> shelf_size (shelves st1 ! i) \<and>
      shelf_size (shelves st1 ! i) \<le> fst (sheet_size sh)"
    if "i < length (shelves st)" for i
  proof (cases "i = k")
    case True
    then show ?thesis
      using k wf(1) fitw by (simp add: st1_def s1_def s_def)
  next
    case False
    have "shelves st ! i \<in> set (shelves st)" using that by simp
    then have "shelf_size (shelves st ! i) \<le> fst (sheet_size sh)"
      using inv by (simp add: shelf_inv_def)
    then show ?thesis
      using False by (simp add: st1_def)
  qed
  have inv1: "shelf_inv sh st1"
  proof -
    have "0 \<le> shelf_start t \<and> 0 \<le> shelf_size t \<and> shelf_size t \<le> fst (sheet_size sh) \<and>
        0 \<le> shelf_max t \<and> shelf_start t + shelf_max t \<le> layout_size st1"
      if t: "t \<in> set (shelves st1)" for t
    proof -
      obtain i where i: "i < length (shelves st)" "t = shelves st1 ! i"
        using t len by (metis in_set_conv_nth)
      have o: "shelves st ! i \<in> set (shelves st)" using i(1) by simp
      have "0 \<le> shelf_start (shelves st ! i)" "0 \<le> shelf_size (shelves st ! i)"
        "0 \<le> shelf_max (shelves st ! i)"
        "shelf_start (shelves st ! i) + shelf_max (shelves st ! i) \<le> layout_size st"
        using inv o by (auto simp: shelf_inv_def)
      then show ?thesis
        using nth [OF i(1)] i(2) by (simp add: st1_def)
    qed
    moreover have "shelf_start (shelves st1 ! i) + shelf_max (shelves st1 ! i) \<le>
        shelf_start (shelves st1 ! j)" if "i < j" "j < length (shelves st1)" for i j
    proof -
      have "shelf_start (shelves st ! i) + shelf_max (shelves st ! i) \<le>
          shelf_start (shelves st ! j)"
        using inv that len by (simp add: shelf_inv_def)
      then show ?thesis
        using nth [of i] nth [of j] that len by simp
    qed
    moreover have "0 \<le> layout_size st1" "shelves st1 \<noteq> []"
      "layout_size st1 \<le> snd (sheet_size sh)"
      using inv k sp(5) by (auto simp: shelf_inv_def st1_def)
    ultimately show ?thesis
      unfolding shelf_inv_def by blast
  qed
  have bx: "rx (box spr1) = shelf_size s" "ry (box spr1) = shelf_start s"
    "rw (box spr1) = rw (box spr)" "rh (box spr1) = rh (box spr)"
    by (simp_all add: spr1_def)
  have bin: "in_bin sh (box spr1)"
    using sp fitw fith bx by (simp add: in_bin_def right_def bottom_def s_def)
  have "on_shelf (shelves st1 ! k) (box spr1)"
    using k bx fith wf sp by (simp add: on_shelf_def st1_def s1_def right_def bottom_def s_def)
  then have on1: "on_shelves st1 (box spr1)"
    using k len unfolding on_shelves_def by auto
  have old: "on_shelves st1 b \<and> \<not> intersects b (box spr1)" if b: "on_shelves st b" for b
  proof -
    obtain j where j: "j < length (shelves st)" "on_shelf (shelves st ! j) b"
      using b unfolding on_shelves_def by blast
    have "on_shelf (shelves st1 ! j) b"
      using j(2) nth [OF j(1)] by (simp add: on_shelf_def)
    then have a: "on_shelves st1 b"
      using j(1) len unfolding on_shelves_def by auto
    have "\<not> intersects b (box spr1)"
    proof (cases "j = k")
      case True
      then have "right b \<le> rx (box spr1)"
        using j(2) bx by (simp add: on_shelf_def s_def)
      then show ?thesis by (simp add: intersects_def)
    next
      case False
      show ?thesis
      proof (cases "j < k")
        case True
        have "shelf_start (shelves st ! j) + shelf_max (shelves st ! j) \<le>
            shelf_start (shelves st ! k)"
          using inv True k by (simp add: shelf_inv_def)
        then have "bottom b \<le> ry (box spr1)"
          using j(2) bx by (simp add: on_shelf_def s_def)
        then show ?thesis by (simp add: intersects_def)
      next
        case False
        then have "k < j" using \<open>j \<noteq> k\<close> by simp
        then have "shelf_start (shelves st ! k) + shelf_max (shelves st ! k) \<le>
            shelf_start (shelves st ! j)"
          using inv j(1) by (simp add: shelf_inv_def)
        then have "bottom (box spr1) \<le> ry b"
          using j(2) bx fith by (simp add: on_shelf_def s_def bottom_def)
        then show ?thesis by (simp add: intersects_def)
      qed
    qed
    then show ?thesis using a by simp
  qed
  show ?thesis
    using pl inv1 bin on1 bx old by blast
qed

lemma ShelfLayout_place_Fresh_sound:
  assumes inv: "shelf_inv sh st"
    and fitw: "rw (box spr) \<le> fst (sheet_size sh)"
    and fith: "rh (box spr) \<le> snd (sheet_size sh)"
    and room: "shelves st \<noteq> [] \<longrightarrow> layout_size st + rh (box spr) \<le> snd (sheet_size sh)"
    and wf: "0 \<le> rw (box spr)" "0 \<le> rh (box spr)"
  shows "\<exists>st1 spr1.
     ShelfLayout_place st spr (Fresh (Shelf (layout_size st))) (rotated spr) = (True, st1, spr1) \<and>
     shelf_inv sh st1 \<and> in_bin sh (box spr1) \<and> on_shelves st1 (box spr1) \<and>
     rw (box spr1) = rw (box spr) \<and> rh (box spr1) = rh (box spr) \<and>
     (\<forall>b. on_shelves st b \<longrightarrow> on_shelves st1 b \<and> \<not> intersects b (box spr1))"
proof -
  define spr1 where "spr1 = spr\<lparr>box := (box spr)\<lparr>rx := 0, ry := layout_size st\<rparr>\<rparr>"
  define s1 where "s1 = \<lparr>shelf_start = layout_size st, shelf_size = rw (box spr),
      shelf_max = rh (box spr), shelf_rects = [spr1]\<rparr>"
  define st1 where "st1 = \<lparr>layout_size = layout_size st + rh (box spr),
      shelves = shelves st @ [s1]\<rparr>"
  have sp1: "Shelf_place (Shelf (layout_size st)) spr = (s1, spr1)"
    using wf(2) by (auto simp: Shelf_place_def Shelf_def Let_def s1_def spr1_def)
  have "max (layout_size st) (shelf_start s1 + shelf_max s1) = layout_size st + rh (box spr)"
    using wf(2) by (simp add: s1_def)
  then have pl: "ShelfLayout_place st spr (Fresh (Shelf (layout_size st))) (rotated spr) =
      (True, st1, spr1)"
    using sp1 by (simp add: ShelfLayout_place_def st1_def)
  have top: "layout_size st + rh (box spr) \<le> snd (sheet_size sh)"
    using room inv fith by (cases "shelves st = []") (simp_all add: shelf_inv_def)
  have l0: "0 \<le> layout_size st"
    using inv by (simp add: shelf_inv_def)
  have inv1: "shelf_inv sh st1"
  proof -
    have "0 \<le> shelf_start t \<and> 0 \<le> shelf_size t \<and> shelf_size t \<le> fst (sheet_size sh) \<and>
        0 \<le> shelf_max t \<and> shelf_start t + shelf_max t \<le> layout_size st1"
      if "t \<in> set (shelves st1)" for t
    proof (cases "t = s1")
      case True
      then show ?thesis
        using wf fitw l0 by (simp add: s1_def st1_def)
    next
      case False
      then have "t \<in> set (shelves st)"
        using that by (simp add: st1_def)
      then show ?thesis
        using inv wf(2) by (auto simp: shelf_inv_def st1_def)
    qed
    moreover have "shelf_start (shelves st1 ! i) + shelf_max (shelves st1 ! i) \<le>
        shelf_start (shelves st1 ! j)" if "i < j" "j < length (shelves st1)" for i j
    proof (cases "j < length (shelves st)")
      case True
      then show ?thesis
        using inv that by (simp add: shelf_inv_def st1_def nth_append)
    next
      case False
      then have j: "j = length (shelves st)"
        using that(2) by (simp add: st1_def)
      have "shelves st ! i \<in> set (shelves st)"
        using that(1) j by simp
      then have "shelf_start (shelves st ! i) + shelf_max (shelves st ! i) \<le> layout_size st"
        using inv by (simp add: shelf_inv_def)
      then show ?thesis
        using that(1) j by (simp add: st1_def nth_append s1_def)
    qed
    moreover have "0 \<le> layout_size st1" "shelves st1 \<noteq> []"
      "layout_size st1 \<le> snd (sheet_size sh)"
      using l0 wf(2) top by (simp_all add: st1_def)
    ultimately show ?thesis
      unfolding shelf_inv_def by blast
  qed
  have bx: "rx (box spr1) = 0" "ry (box spr1) = layout_size st"
    "rw (box spr1) = rw (box spr)" "rh (box spr1) = rh (box spr)"
    by (simp_all add: spr1_def)
  have bin: "in_bin sh (box spr1)"
    using bx fitw top l0 by (simp add: in_bin_def right_def bottom_def)
  have "on_shelf (shelves st1 ! length (shelves st)) (box spr1)"
    using bx by (simp add: on_shelf_def st1_def s1_def right_def bottom_def)
  then have on1: "on_shelves st1 (box spr1)"
    unfolding on_shelves_def by (intro exI [of _ "length (shelves st)"]) (simp add: st1_def)
  have old: "on_shelves st1 b \<and> \<not> intersects b (box spr1)" if b: "on_shelves st b" for b
  proof -
    obtain j where j: "j < length (shelves st)" "on_shelf (shelves st ! j) b"
      using b unfolding on_shelves_def by blast
    have "on_shelf (shelves st1 ! j) b"
      using j by (simp add: st1_def nth_append)
    then have a: "on_shelves st1 b"
      using j(1) unfolding on_shelves_def by (intro exI [of _ j]) (simp add: st1_def)
    have "shelves st ! j \<in> set (shelves st)"
      using j(1) by simp
    then have "shelf_start (shelves st ! j) + shelf_max (shelves st ! j) \<le> layout_size st"
      using inv by (simp add: shelf_inv_def)
    then have "bottom b \<le> ry (box spr1)"
      using j(2) bx by (simp add: on_shelf_def)
    then have "\<not> intersects b (box spr1)"
      by (simp add: intersects_def)
    then show ?thesis using a by simp
  qed
  show ?thesis
    using pl inv1 bin on1 bx old by blast
qed

lemma ShelfLayout_place_sound:
  assumes "shelf_inv sh st" "shelf_choice sh st spr pos"
    and "0 \<le> rw (box spr)" "0 \<le> rh (box spr)"
  shows "\<exists>st1 spr1. ShelfLayout_place st spr pos (rotated spr) = (True, st1, spr1) \<and>
     shelf_inv sh st1 \<and> in_bin sh (box spr1) \<and> on_shelves st1 (box spr1) \<and>
     rw (box spr1) = rw (box spr) \<and> rh (box spr1) = rh (box spr) \<and>
     (\<forall>b. on_shelves st b \<longrightarrow> on_shelves st1 b \<and> \<not> intersects b (box spr1))"
proof (cases pos)
  case (Existing k)
  then show ?thesis
    using assms ShelfLayout_place_Existing_sound [of sh st k spr]
    by (simp add: shelf_choice_def)
next
  case (Fresh s0)
  then show ?thesis
    using assms ShelfLayout_place_Fresh_sound [of sh st spr]
    by (simp add: shelf_choice_def)
qed

lemma ShelfLayout_place_True: "fst (ShelfLayout_place st s pos rot)"
  by (cases pos) (simp_all add: ShelfLayout_place_def Let_def split: prod.splits)

lemma ShelfLayout_add_body_Continue_ok:
  assumes nr: "\<not> sheet_rotate sh"
    and inv: "shelf_run_ok sh st placed remain"
    and c: "add_body (ShelfLayout_get_best sh) ShelfLayout_place st placed remain =
      Continue st1 placed1 remain1"
  shows "shelf_run_ok sh st1 placed1 remain1"
proof -
  obtain r1 b where g: "ShelfLayout_get_best sh st remain = (r1, b)"
    by (cases "ShelfLayout_get_best sh st remain")
  from c g obtain i pos rot where b: "b = Some (i, pos, rot)"
    by (auto simp: add_body_def split: option.splits if_splits)
  have ch: "r1 = remain" "i < length remain" "rot = rotated (remain ! i)"
    "shelf_choice sh st (remain ! i) pos"
    using ShelfLayout_get_best_choice [OF nr g [unfolded b]] by simp_all
  have wf: "0 \<le> rw (box (remain ! i))" "0 \<le> rh (box (remain ! i))"
    using inv ch(2) by (simp_all add: shelf_run_ok_def)
  have si: "shelf_inv sh st"
    using inv by (simp add: shelf_run_ok_def)
  obtain st2 spr where pl: "ShelfLayout_place st (remain ! i) pos (rotated (remain ! i)) =
      (True, st2, spr)"
    and p: "shelf_inv sh st2" "in_bin sh (box spr)" "on_shelves st2 (box spr)"
      "rw (box spr) = rw (box (remain ! i))" "rh (box spr) = rh (box (remain ! i))"
      "\<forall>b. on_shelves st b \<longrightarrow> on_shelves st2 b \<and> \<not> intersects b (box spr)"
    using ShelfLayout_place_sound [OF si ch(4) wf] by blast
  from c g b ch pl have r: "st1 = st2" "placed1 = placed @ [spr]"
    "remain1 = pop i (remain[i := spr])"
    by (auto simp: add_body_def split: if_splits)
  have "set remain1 \<subseteq> insert spr (set remain)"
    using r(3) set_pop [of i "remain[i := spr]"] set_update_subset_insert [of remain i spr]
    by blast
  then have a: "\<forall>s \<in> set remain1. 0 \<le> rw (box s) \<and> 0 \<le> rh (box s)"
    using inv p(4,5) wf by (auto simp: shelf_run_ok_def)
  have old: "\<forall>q \<in> set placed. in_bin sh (box q) \<and> on_shelves st (box q)"
    "disjoint_sprites placed"
    using inv by (simp_all add: shelf_run_ok_def)
  have "\<forall>q \<in> set placed1. in_bin sh (box q) \<and> on_shelves st1 (box q)"
    using old(1) p(2,3,6) r by auto
  moreover have "disjoint_sprites placed1"
    using old p(6) r(2) by (auto simp: disjoint_sprites_snoc)
  ultimately show ?thesis
    using p(1) a r(1) by (simp add: shelf_run_ok_def)
qed

lemma ShelfLayout_add_body_Break_ok:
  assumes nr: "\<not> sheet_rotate sh"
    and inv: "shelf_run_ok sh st placed remain"
    and c: "add_body (ShelfLayout_get_best sh) ShelfLayout_place st placed remain =
      Break st1 placed1 remain1"
  shows "shelf_run_ok sh st1 placed1 remain1"
proof -
  obtain r1 b where g: "ShelfLayout_get_best sh st remain = (r1, b)"
    by (cases "ShelfLayout_get_best sh st remain")
  have "b = None"
  proof (rule ccontr)
    assume "b \<noteq> None"
    then obtain i pos rot where b: "b = Some (i, pos, rot)" by auto
    obtain ok st2 spr where p: "ShelfLayout_place st (r1 ! i) pos rot = (ok, st2, spr)"
      by (cases "ShelfLayout_place st (r1 ! i) pos rot")
    have "ok" using ShelfLayout_place_True [of st "r1 ! i" pos rot] p by simp
    then show False
      using c g b p by (auto simp: add_body_def split: if_splits)
  qed
  then have "st1 = st" "placed1 = placed" "remain1 = r1" "r1 = remain"
    using c g ShelfLayout_get_best_None [OF nr, of st remain r1]
    by (simp_all add: add_body_def)
  then show ?thesis using inv by simp
qed

text \<open>
  Without rotation, the sprites that \<^verbatim>\<open>ShelfLayout.add\<close> places on a cleared layout lie
  in the bin and no two of them intersect, for sprites of non-negative width and height.
\<close>

lemma ShelfLayout_add_sound:
  assumes nr: "\<not> sheet_rotate sh"
    and wf: "\<forall>s \<in> set sprites. 0 \<le> rw (box s) \<and> 0 \<le> rh (box s)"
    and r: "ShelfLayout_add sh ShelfLayout_clear sprites = Some (Inr (st1, placed, remain))"
  shows "(\<forall>p \<in> set placed. in_bin sh (box p)) \<and> disjoint_sprites placed"
proof -
  have "shelf_run_ok sh ShelfLayout_clear [] sprites"
    using wf by (simp add: shelf_run_ok_def shelf_inv_def ShelfLayout_clear_def)
  moreover have "add_loop (ShelfLayout_get_best sh) ShelfLayout_place (length sprites)
      ShelfLayout_clear [] sprites = Some (Inr (st1, placed, remain))"
    using r by (simp add: ShelfLayout_add_def Layout_add_def)
  ultimately have "shelf_run_ok sh st1 placed remain"
    by (rule add_loop_invariant [where I = "shelf_run_ok sh", rotated 2])
      (erule (1) ShelfLayout_add_body_Continue_ok [OF nr],
       erule (1) ShelfLayout_add_body_Break_ok [OF nr])
  then show ?thesis by (simp add: shelf_run_ok_def)
qed

subsection \<open>Stack\<close>

lemma stack_step_acc_ok:
  assumes "stack_acc_ok sh st w h acc" "k < length (stacks st)"
  shows "stack_acc_ok sh st w h (stack_step sh w h acc (k, stacks st ! k))"
  using assms
  by (auto simp: stack_acc_ok_def stack_step_def Let_def split: sum.splits option.splits)

lemma foldl_stack_step_acc_ok:
  "stack_acc_ok sh st w h acc \<Longrightarrow>
     \<forall>ks \<in> set kss. fst ks < length (stacks st) \<and> snd ks = stacks st ! fst ks \<Longrightarrow>
     stack_acc_ok sh st w h (foldl (stack_step sh w h) acc kss)"
proof (induction kss arbitrary: acc)
  case Nil
  then show ?case by simp
next
  case (Cons ks kss)
  obtain k s where ks: "ks = (k, s)" by (cases ks)
  have "k < length (stacks st)" "s = stacks st ! k"
    using Cons.prems(2) ks by simp_all
  then have "stack_acc_ok sh st w h (stack_step sh w h acc ks)"
    using stack_step_acc_ok [OF Cons.prems(1)] ks by simp
  then show ?case
    using Cons.IH Cons.prems(2) by simp
qed

lemma stack_loop_acc_ok:
  "stack_acc_ok sh st w h (foldl (stack_step sh w h)
     (Inr \<lparr>loc_best = None, loc_stack = None, loc_t = None\<rparr>) (enumerate 0 (stacks st)))"
  by (rule foldl_stack_step_acc_ok) (auto simp: stack_acc_ok_def in_set_enumerate_eq)

lemma Stack_new_sound:
  assumes inv: "stack_inv sh st"
    and fitw: "rw (box spr) \<le> fst (sheet_size sh)"
    and fith: "rh (box spr) \<le> snd (sheet_size sh)"
    and room: "stacks st \<noteq> [] \<longrightarrow> stacks_size st + rw (box spr) \<le> fst (sheet_size sh)"
    and wf: "0 \<le> rw (box spr)" "0 \<le> rh (box spr)"
    and sp: "Stack_place (Stack (stacks_size st)) spr = (s1, spr1)"
    and st1: "st1 = st\<lparr>stacks := stacks st @ [s1],
        stacks_size := max (stacks_size st) (stack_start s1 + stack_max s1)\<rparr>"
  shows "stack_sound_step sh st spr st1 spr1"
proof -
  have s1: "stack_start s1 = stacks_size st" "stack_size s1 = rh (box spr)"
    "stack_max s1 = rw (box spr)"
    using sp wf(1) by (auto simp: Stack_place_def Stack_def Let_def)
  have bx: "rx (box spr1) = stacks_size st" "ry (box spr1) = 0"
    "rw (box spr1) = rw (box spr)" "rh (box spr1) = rh (box spr)"
    using sp by (auto simp: Stack_place_def Stack_def Let_def)
  have sz: "stacks_size st1 = stacks_size st + rw (box spr)"
    using st1 s1 wf(1) by simp
  have ss: "stacks st1 = stacks st @ [s1]"
    using st1 by simp
  have l0: "0 \<le> stacks_size st"
    using inv by (simp add: stack_inv_def)
  have top: "stacks_size st + rw (box spr) \<le> fst (sheet_size sh)"
    using room inv fitw by (cases "stacks st = []") (simp_all add: stack_inv_def)
  have inv1: "stack_inv sh st1"
  proof -
    have "0 \<le> stack_start t \<and> 0 \<le> stack_size t \<and> stack_size t \<le> snd (sheet_size sh) \<and>
        0 \<le> stack_max t \<and> stack_start t + stack_max t \<le> stacks_size st1"
      if t: "t \<in> set (stacks st1)" for t
    proof (cases "t = s1")
      case True
      then show ?thesis
        using wf fith l0 s1 sz by simp
    next
      case False
      then have "t \<in> set (stacks st)"
        using t ss by simp
      then show ?thesis
        using inv wf(1) sz by (auto simp: stack_inv_def)
    qed
    moreover have "stack_start (stacks st1 ! i) + stack_max (stacks st1 ! i) \<le>
        stack_start (stacks st1 ! j)" if ij: "i < j" "j < length (stacks st1)" for i j
    proof (cases "j < length (stacks st)")
      case True
      then show ?thesis
        using inv ij ss by (simp add: stack_inv_def nth_append)
    next
      case False
      then have j: "j = length (stacks st)"
        using ij(2) ss by simp
      have "stacks st ! i \<in> set (stacks st)"
        using ij(1) j by simp
      then have "stack_start (stacks st ! i) + stack_max (stacks st ! i) \<le> stacks_size st"
        using inv by (simp add: stack_inv_def)
      then show ?thesis
        using ij(1) j ss s1 by (simp add: nth_append)
    qed
    moreover have "0 \<le> stacks_size st1" "stacks st1 \<noteq> []"
      "stacks_size st1 \<le> fst (sheet_size sh)"
      using l0 wf(1) top sz ss by simp_all
    ultimately show ?thesis
      unfolding stack_inv_def by blast
  qed
  have bin: "in_bin sh (box spr1)"
    using bx fith top l0 by (simp add: in_bin_def right_def bottom_def)
  have "on_stack (stacks st1 ! length (stacks st)) (box spr1)"
    using bx s1 ss by (simp add: on_stack_def right_def bottom_def)
  then have on1: "on_stacks st1 (box spr1)"
    unfolding on_stacks_def using ss by (intro exI [of _ "length (stacks st)"]) simp
  have old: "on_stacks st1 b \<and> \<not> intersects b (box spr1)" if b: "on_stacks st b" for b
  proof -
    obtain j where j: "j < length (stacks st)" "on_stack (stacks st ! j) b"
      using b unfolding on_stacks_def by blast
    have "on_stack (stacks st1 ! j) b"
      using j ss by (simp add: nth_append)
    then have a: "on_stacks st1 b"
      unfolding on_stacks_def using j(1) ss by (intro exI [of _ j]) simp
    have "stacks st ! j \<in> set (stacks st)"
      using j(1) by simp
    then have "stack_start (stacks st ! j) + stack_max (stacks st ! j) \<le> stacks_size st"
      using inv by (simp add: stack_inv_def)
    then have "right b \<le> rx (box spr1)"
      using j(2) bx by (simp add: on_stack_def)
    then have "\<not> intersects b (box spr1)"
      by (simp add: intersects_def)
    then show ?thesis using a by simp
  qed
  show ?thesis
    using inv1 bin on1 old by (simp add: stack_sound_step_def)
qed

lemma Stack_existing_sound:
  assumes inv: "stack_inv sh st"
    and k: "k < length (stacks st)"
    and fith: "stack_size (stacks st ! k) + rh (box spr) \<le> snd (sheet_size sh)"
    and fitw: "rw (box spr) \<le> stack_max (stacks st ! k)"
    and wf: "0 \<le> rw (box spr)" "0 \<le> rh (box spr)"
    and sp: "Stack_place (stacks st ! k) spr = (s1, spr1)"
    and st1: "st1 = st\<lparr>stacks := (stacks st)[k := s1],
        stacks_size := max (stacks_size st) (stack_start s1 + stack_max s1)\<rparr>"
  shows "stack_sound_step sh st spr st1 spr1"
proof -
  define s where "s = stacks st ! k"
  have sk: "s \<in> set (stacks st)"
    using k by (simp add: s_def)
  have p: "0 \<le> stack_start s" "0 \<le> stack_size s" "0 \<le> stack_max s"
    "stack_start s + stack_max s \<le> stacks_size st" "stacks_size st \<le> fst (sheet_size sh)"
    using inv sk by (auto simp: stack_inv_def)
  have s1: "stack_start s1 = stack_start s" "stack_size s1 = stack_size s + rh (box spr)"
    "stack_max s1 = stack_max s"
    using sp fitw by (auto simp: Stack_place_def Let_def s_def)
  have bx: "rx (box spr1) = stack_start s" "ry (box spr1) = stack_size s"
    "rw (box spr1) = rw (box spr)" "rh (box spr1) = rh (box spr)"
    using sp by (auto simp: Stack_place_def Let_def s_def)
  have sz: "stacks_size st1 = stacks_size st"
    using st1 s1 p(4) by simp
  have ss: "stacks st1 = (stacks st)[k := s1]"
    using st1 by simp
  have len: "length (stacks st1) = length (stacks st)"
    using ss by simp
  have nth: "stack_start (stacks st1 ! i) = stack_start (stacks st ! i) \<and>
      stack_max (stacks st1 ! i) = stack_max (stacks st ! i) \<and>
      stack_size (stacks st ! i) \<le> stack_size (stacks st1 ! i) \<and>
      stack_size (stacks st1 ! i) \<le> snd (sheet_size sh)"
    if i: "i < length (stacks st)" for i
  proof (cases "i = k")
    case True
    then show ?thesis
      using k wf(2) fith ss s1 by (simp add: s_def)
  next
    case False
    have "stacks st ! i \<in> set (stacks st)" using i by simp
    then have "stack_size (stacks st ! i) \<le> snd (sheet_size sh)"
      using inv by (simp add: stack_inv_def)
    then show ?thesis
      using False ss by simp
  qed
  have inv1: "stack_inv sh st1"
  proof -
    have "0 \<le> stack_start t \<and> 0 \<le> stack_size t \<and> stack_size t \<le> snd (sheet_size sh) \<and>
        0 \<le> stack_max t \<and> stack_start t + stack_max t \<le> stacks_size st1"
      if t: "t \<in> set (stacks st1)" for t
    proof -
      obtain i where i: "i < length (stacks st)" "t = stacks st1 ! i"
        using t len by (metis in_set_conv_nth)
      have o: "stacks st ! i \<in> set (stacks st)" using i(1) by simp
      have "0 \<le> stack_start (stacks st ! i)" "0 \<le> stack_size (stacks st ! i)"
        "0 \<le> stack_max (stacks st ! i)"
        "stack_start (stacks st ! i) + stack_max (stacks st ! i) \<le> stacks_size st"
        using inv o by (auto simp: stack_inv_def)
      then show ?thesis
        using nth [OF i(1)] i(2) sz by simp
    qed
    moreover have "stack_start (stacks st1 ! i) + stack_max (stacks st1 ! i) \<le>
        stack_start (stacks st1 ! j)" if ij: "i < j" "j < length (stacks st1)" for i j
    proof -
      have "stack_start (stacks st ! i) + stack_max (stacks st ! i) \<le>
          stack_start (stacks st ! j)"
        using inv ij len by (simp add: stack_inv_def)
      then show ?thesis
        using nth [of i] nth [of j] ij len by simp
    qed
    moreover have "0 \<le> stacks_size st1" "stacks st1 \<noteq> []"
      "stacks_size st1 \<le> fst (sheet_size sh)"
      using inv k p(5) sz ss by (auto simp: stack_inv_def)
    ultimately show ?thesis
      unfolding stack_inv_def by blast
  qed
  have bin: "in_bin sh (box spr1)"
    using p fitw fith bx by (simp add: in_bin_def right_def bottom_def s_def)
  have "on_stack (stacks st1 ! k) (box spr1)"
    using k bx fitw wf p ss s1 by (simp add: on_stack_def right_def bottom_def s_def)
  then have on1: "on_stacks st1 (box spr1)"
    using k len unfolding on_stacks_def by auto
  have old: "on_stacks st1 b \<and> \<not> intersects b (box spr1)" if b: "on_stacks st b" for b
  proof -
    obtain j where j: "j < length (stacks st)" "on_stack (stacks st ! j) b"
      using b unfolding on_stacks_def by blast
    have "on_stack (stacks st1 ! j) b"
      using j(2) nth [OF j(1)] by (simp add: on_stack_def)
    then have a: "on_stacks st1 b"
      using j(1) len unfolding on_stacks_def by auto
    have "\<not> intersects b (box spr1)"
    proof (cases "j = k")
      case True
      then have "bottom b \<le> ry (box spr1)"
        using j(2) bx by (simp add: on_stack_def s_def)
      then show ?thesis by (simp add: intersects_def)
    next
      case False
      show ?thesis
      proof (cases "j < k")
        case True
        have "stack_start (stacks st ! j) + stack_max (stacks st ! j) \<le>
            stack_start (stacks st ! k)"
          using inv True k by (simp add: stack_inv_def)
        then have "right b \<le> rx (box spr1)"
          using j(2) bx by (simp add: on_stack_def s_def)
        then show ?thesis by (simp add: intersects_def)
      next
        case False
        then have "k < j" using \<open>j \<noteq> k\<close> by simp
        then have "stack_start (stacks st ! k) + stack_max (stacks st ! k) \<le>
            stack_start (stacks st ! j)"
          using inv j(1) by (simp add: stack_inv_def)
        then have "right (box spr1) \<le> rx b"
          using j(2) bx fitw by (simp add: on_stack_def s_def right_def)
        then show ?thesis by (simp add: intersects_def)
      qed
    qed
    then show ?thesis using a by simp
  qed
  show ?thesis
    using inv1 bin on1 old by (simp add: stack_sound_step_def)
qed

text \<open>
  A call of \<^verbatim>\<open>StackLayout.add\<close> that returns true, whether or not the sheet allows
  rotation, has placed the sprite in the bin, clear of everything on the stacks.
\<close>

lemma StackLayout_add_sound:
  assumes inv: "stack_inv sh st"
    and wf: "0 \<le> rw (box spr)" "0 \<le> rh (box spr)"
    and a: "StackLayout_add sh st spr = Inr (True, st1, spr1)"
  shows "stack_sound_step sh st spr st1 spr1"
proof -
  define res where "res = foldl (stack_step sh (rw (box spr)) (rh (box spr)))
      (Inr \<lparr>loc_best = None, loc_stack = None, loc_t = None\<rparr>) (enumerate 0 (stacks st))"
  have fit: "rw (box spr) \<le> fst (sheet_size sh)" "rh (box spr) \<le> snd (sheet_size sh)"
    using a by (auto simp: StackLayout_add_def Let_def split: if_splits)
  have ok: "stack_acc_ok sh st (rw (box spr)) (rh (box spr)) res"
    unfolding res_def by (rule stack_loop_acc_ok)
  from a fit obtain l where l: "res = Inr l"
    by (cases res) (auto simp: StackLayout_add_def Let_def res_def [symmetric])
  show ?thesis
  proof (cases "loc_stack l")
    case None
    obtain s1 where sp: "Stack_place (Stack (stacks_size st)) spr = (s1, spr1)"
      and st1: "st1 = st\<lparr>stacks := stacks st @ [s1],
        stacks_size := max (stacks_size st) (stack_start s1 + stack_max s1)\<rparr>"
      and room: "stacks st \<noteq> [] \<longrightarrow> stacks_size st + rw (box spr) \<le> fst (sheet_size sh)"
      using a fit l None ok
      by (auto simp: StackLayout_add_def Let_def res_def [symmetric] stack_acc_ok_def
          split: if_splits option.splits prod.splits)
    show ?thesis
      by (rule Stack_new_sound [OF inv fit room wf sp st1])
  next
    case (Some k)
    have k: "k < length (stacks st)"
      "stack_size (stacks st ! k) + rh (box spr) \<le> snd (sheet_size sh)"
      "rw (box spr) \<le> stack_max (stacks st ! k)"
      using ok l Some by (simp_all add: stack_acc_ok_def)
    obtain s1 where sp: "Stack_place (stacks st ! k) spr = (s1, spr1)"
      and st1: "st1 = st\<lparr>stacks := (stacks st)[k := s1],
        stacks_size := max (stacks_size st) (stack_start s1 + stack_max s1)\<rparr>"
      using a fit l Some ok
      by (auto simp: StackLayout_add_def Let_def res_def [symmetric] stack_acc_ok_def
          split: if_splits option.splits prod.splits)
    show ?thesis
      by (rule Stack_existing_sound [OF inv k wf sp st1])
  qed
qed

lemma StackLayout_add_False:
  "StackLayout_add sh st spr = Inr (False, st1, spr1) \<Longrightarrow> st1 = st"
  by (auto simp: StackLayout_add_def Let_def
      split: if_splits sum.splits option.splits prod.splits)

lemma StackLayout_adds_sound:
  "stack_inv sh st \<Longrightarrow> \<forall>s \<in> set sprites. 0 \<le> rw (box s) \<and> 0 \<le> rh (box s) \<Longrightarrow>
     StackLayout_adds sh st sprites = Inr (st', ps) \<Longrightarrow>
     stack_inv sh st' \<and> disjoint_sprites ps \<and>
     (\<forall>p \<in> set ps. in_bin sh (box p)) \<and>
     (\<forall>b. on_stacks st b \<longrightarrow> on_stacks st' b \<and> (\<forall>p \<in> set ps. \<not> intersects b (box p)))"
proof (induction sprites arbitrary: st st' ps)
  case Nil
  then show ?case by simp
next
  case (Cons s ss)
  from Cons.prems(3) obtain ok st1 s1 where a: "StackLayout_add sh st s = Inr (ok, st1, s1)"
    by (auto split: sum.splits)
  from Cons.prems(3) a obtain ps1 where r: "StackLayout_adds sh st1 ss = Inr (st', ps1)"
      and ps: "ps = (if ok then s1 # ps1 else ps1)"
    by (auto split: sum.splits)
  have wf: "0 \<le> rw (box s)" "0 \<le> rh (box s)"
    "\<forall>s \<in> set ss. 0 \<le> rw (box s) \<and> 0 \<le> rh (box s)"
    using Cons.prems(2) by simp_all
  show ?case
  proof (cases ok)
    case False
    then have "st1 = st"
      using a StackLayout_add_False [of sh st s st1 s1] by simp
    then show ?thesis
      using Cons.IH [OF _ wf(3) r] Cons.prems(1) ps False by simp
  next
    case True
    have st: "stack_sound_step sh st s st1 s1"
      using StackLayout_add_sound [OF Cons.prems(1) wf(1,2)] a True by simp
    then have i1: "stack_inv sh st1"
      by (simp add: stack_sound_step_def)
    note ih = Cons.IH [OF i1 wf(3) r]
    have "on_stacks st1 (box s1)"
      using st by (simp add: stack_sound_step_def)
    then have "\<forall>p \<in> set ps1. \<not> intersects (box s1) (box p)"
      using ih by blast
    then have d: "disjoint_sprites (s1 # ps1)"
      using ih by (simp add: list_all_iff)
    have "in_bin sh (box s1)"
      using st by (simp add: stack_sound_step_def)
    then have b: "\<forall>p \<in> set (s1 # ps1). in_bin sh (box p)"
      using ih by simp
    have "on_stacks st' b \<and> (\<forall>p \<in> set (s1 # ps1). \<not> intersects b (box p))"
      if o: "on_stacks st b" for b
    proof -
      have "on_stacks st1 b" "\<not> intersects b (box s1)"
        using st o by (simp_all add: stack_sound_step_def)
      then show ?thesis using ih by simp
    qed
    then show ?thesis
      using ih d b ps True by simp
  qed
qed

text \<open>
  The sprites that successive calls of \<^verbatim>\<open>StackLayout.add\<close> on a cleared layout have
  placed, when no call has raised, lie in the bin and no two of them intersect.
\<close>

lemma StackLayout_adds_clear_sound:
  assumes "\<forall>s \<in> set sprites. 0 \<le> rw (box s) \<and> 0 \<le> rh (box s)"
    and "StackLayout_adds sh StackLayout_clear sprites = Inr (st, ps)"
  shows "disjoint_sprites ps \<and> (\<forall>p \<in> set ps. in_bin sh (box p))"
proof -
  have "stack_inv sh StackLayout_clear"
    by (simp add: stack_inv_def StackLayout_clear_def)
  then show ?thesis
    using StackLayout_adds_sound [OF _ assms] by simp
qed

section \<open>No overlap and containment in the bin\<close>

text \<open>
  Claim C1 at a failing input. On the 6 x 6 bin with rotation allowed, \<^verbatim>\<open>add\<close> of the
  sprites 1 x 2, 1 x 3, 3 x 4, 5 x 2 places all four, and the sprite placed last, 2 x 1 at
  (4,2), intersects the sprite 1 x 3 at (5,0). In the last \<^verbatim>\<open>search\<close> the rotated fit in
  the first free rectangle sets \<^verbatim>\<open>rotate = True\<close>, the unrotated fit in the second free
  rectangle then wins and leaves the flag set, and \<^verbatim>\<open>get_best\<close> rotates the sprite for
  a position that was found for the unrotated one.
\<close>

theorem maxrects_rotation_overlap:
  "MaxRects_add (plain_sheet 6 6 True) (MaxRects_clear (plain_sheet 6 6 True))
     [new_sprite 0 1 2, new_sprite 1 1 3, new_sprite 2 3 4, new_sprite 3 5 2] =
   Some (Inr (\<lparr>used_rects = [], free_rects = [Rect 2 3 4 3, Rect 4 1 0 2],
               debug_image_count = 0\<rparr>,
     [placed_at 3 5 2 0 0 False, placed_at 1 1 3 5 0 False,
      placed_at 2 4 3 0 3 True, placed_at 0 2 1 4 2 True],
     [])) \<and>
   intersects (box (placed_at 1 1 3 5 0 False)) (box (placed_at 0 2 1 4 2 True))"
  by code_simp

text \<open>
  Claim C2 at a failing input. On the bin of width 4 and height 10 with rotation allowed,
  \<^verbatim>\<open>ShelfLayout.add\<close> of the single sprite 3 x 8 rotates it for the new shelf and places
  it as 8 x 3 at (0,0): its right edge 8 is outside the bin. The size guard of
  \<^verbatim>\<open>get_best\<close> runs before the rotation and is not repeated after it.
\<close>

theorem shelf_rotation_leaves_bin:
  "ShelfLayout_add (plain_sheet 4 10 True) ShelfLayout_clear [new_sprite 0 3 8] =
   Some (Inr (\<lparr>layout_size = 3,
                shelves = [\<lparr>shelf_start = 0, shelf_size = 8, shelf_max = 3,
                            shelf_rects = [placed_at 0 8 3 0 0 True]\<rparr>]\<rparr>,
     [placed_at 0 8 3 0 0 True], [])) \<and>
   \<not> in_bin (plain_sheet 4 10 True) (box (placed_at 0 8 3 0 0 True))"
  by code_simp

section \<open>Placed and remaining sprites\<close>

text \<open>
  Claim C3, amended. For the two strategies that \<^verbatim>\<open>Layout.add\<close> drives, the sprites of
  \<^verbatim>\<open>placed\<close> and of \<^verbatim>\<open>remain\<close> are together the sprites of the input, as multisets of
  objects, and \<^verbatim>\<open>remain\<close> keeps the relative order of the input.
\<close>

theorem add_partitions_input:
  "(MaxRects_add sh st sprites = Some (Inr (st1, placed, remain)) \<longrightarrow>
      mset (map ident placed) + mset (map ident remain) = mset (map ident sprites) \<and>
      subseq (map ident remain) (map ident sprites)) \<and>
   (ShelfLayout_add sh st' sprites = Some (Inr (st1', placed', remain')) \<longrightarrow>
      mset (map ident placed') + mset (map ident remain') = mset (map ident sprites) \<and>
      subseq (map ident remain') (map ident sprites))"
proof -
  have "mset (map ident placed) + mset (map ident remain) = mset (map ident sprites) \<and>
      subseq (map ident remain) (map ident sprites)"
    if "MaxRects_add sh st sprites = Some (Inr (st1, placed, remain))"
    using add_loop_partition [of "MaxRects_get_best sh" "MaxRects_place sh"
        "length sprites" st "[]" sprites st1 placed remain]
      MaxRects_get_best_ident MaxRects_place_ident that
    by (simp add: MaxRects_add_def Layout_add_def)
  moreover have "mset (map ident placed') + mset (map ident remain') = mset (map ident sprites) \<and>
      subseq (map ident remain') (map ident sprites)"
    if "ShelfLayout_add sh st' sprites = Some (Inr (st1', placed', remain'))"
    using add_loop_partition [of "ShelfLayout_get_best sh" ShelfLayout_place
        "length sprites" st' "[]" sprites st1' placed' remain']
      ShelfLayout_get_best_ident ShelfLayout_place_ident that
    by (simp add: ShelfLayout_add_def Layout_add_def)
  ultimately show ?thesis by blast
qed

text \<open>The theorem on a run of each strategy: on the 5 x 5 bin the sprite 6 x 1 remains and the
  sprite 3 x 3 is placed.\<close>

theorem add_partitions_input_witness:
  "MaxRects_add (plain_sheet 5 5 False) (MaxRects_clear (plain_sheet 5 5 False))
     [new_sprite 0 6 1, new_sprite 1 3 3] =
   Some (Inr (\<lparr>used_rects = [], free_rects = [Rect 5 2 0 3, Rect 2 5 3 0],
               debug_image_count = 0\<rparr>,
     [placed_at 1 3 3 0 0 False], [new_sprite 0 6 1])) \<and>
   ShelfLayout_add (plain_sheet 5 5 False) ShelfLayout_clear
     [new_sprite 0 6 1, new_sprite 1 3 3] =
   Some (Inr (\<lparr>layout_size = 3,
                shelves = [\<lparr>shelf_start = 0, shelf_size = 3, shelf_max = 3,
                            shelf_rects = [placed_at 1 3 3 0 0 False]\<rparr>]\<rparr>,
     [placed_at 1 3 3 0 0 False], [new_sprite 0 6 1])) \<and>
   mset (map ident [placed_at 1 3 3 0 0 False]) + mset (map ident [new_sprite 0 6 1]) =
     mset (map ident [new_sprite 0 6 1, new_sprite 1 3 3]) \<and>
   subseq (map ident [new_sprite 0 6 1]) (map ident [new_sprite 0 6 1, new_sprite 1 3 3])"
proof -
  have m: "MaxRects_add (plain_sheet 5 5 False) (MaxRects_clear (plain_sheet 5 5 False))
     [new_sprite 0 6 1, new_sprite 1 3 3] =
   Some (Inr (\<lparr>used_rects = [], free_rects = [Rect 5 2 0 3, Rect 2 5 3 0],
               debug_image_count = 0\<rparr>,
     [placed_at 1 3 3 0 0 False], [new_sprite 0 6 1]))"
    by code_simp
  have s: "ShelfLayout_add (plain_sheet 5 5 False) ShelfLayout_clear
     [new_sprite 0 6 1, new_sprite 1 3 3] =
   Some (Inr (\<lparr>layout_size = 3,
                shelves = [\<lparr>shelf_start = 0, shelf_size = 3, shelf_max = 3,
                            shelf_rects = [placed_at 1 3 3 0 0 False]\<rparr>]\<rparr>,
     [placed_at 1 3 3 0 0 False], [new_sprite 0 6 1]))"
    by code_simp
  show ?thesis
    using add_partitions_input [of "plain_sheet 5 5 False"
        "MaxRects_clear (plain_sheet 5 5 False)" "[new_sprite 0 6 1, new_sprite 1 3 3]"
        _ "[placed_at 1 3 3 0 0 False]" "[new_sprite 0 6 1]" ShelfLayout_clear
        _ "[placed_at 1 3 3 0 0 False]" "[new_sprite 0 6 1]"] m s
    by blast
qed

text \<open>
  Claim C3 as stated fails: \<^verbatim>\<open>placed\<close> is in the order in which the sprites were chosen.
  On the 10 x 10 bin the sprite 10 x 5, second in the input, scores best and is placed
  first, before 3 x 3.
\<close>

theorem placed_order_counterexample:
  "map ident (placed_of (MaxRects_add (plain_sheet 10 10 False)
       (MaxRects_clear (plain_sheet 10 10 False))
       [new_sprite 0 3 3, new_sprite 1 10 5])) = [1, 0] \<and>
   map ident [new_sprite 0 3 3, new_sprite 1 10 5] = [0, 1] \<and>
   \<not> subseq [1, 0 :: nat] [0, 1]"
  by code_simp

section \<open>Scenario S2: MaxRects on the 10 x 10 bin\<close>

text \<open>
  Claim C4, as the code runs it. On the 10 x 10 bin without rotation, \<^verbatim>\<open>add\<close> of the
  sprites 6 x 6, 4 x 4, 4 x 6, 6 x 4 places all four: 6 x 6 at (0,0), then 4 x 6 at (6,0),
  then 6 x 4 at (0,6), then 4 x 4 at (6,6). Nothing remains and no free rectangle is left:
  the bin is tiled.
\<close>

theorem S2_maxrects_places_all_four:
  "MaxRects_add (plain_sheet 10 10 False) (MaxRects_clear (plain_sheet 10 10 False))
     [new_sprite 0 6 6, new_sprite 1 4 4, new_sprite 2 4 6, new_sprite 3 6 4] =
   Some (Inr (\<lparr>used_rects = [], free_rects = [], debug_image_count = 0\<rparr>,
     [placed_at 0 6 6 0 0 False, placed_at 2 4 6 6 0 False,
      placed_at 3 6 4 0 6 False, placed_at 1 4 4 6 6 False],
     []))"
  by code_simp

text \<open>
  The positions that claim C4 states for the 4 x 4 and the 4 x 6 sprite, (6,0) and (6,4),
  are not the ones of the run: after 6 x 6, the sprite 4 x 6 scores (0,4) in the column
  to the right and beats the score (0,6) of 4 x 4.
\<close>

theorem S2_positions_counterexample:
  "length (placed_of (MaxRects_add (plain_sheet 10 10 False)
       (MaxRects_clear (plain_sheet 10 10 False))
       [new_sprite 0 6 6, new_sprite 1 4 4, new_sprite 2 4 6, new_sprite 3 6 4])) = 4 \<and>
   Rect 4 4 6 0 \<notin> set (map box (placed_of (MaxRects_add (plain_sheet 10 10 False)
       (MaxRects_clear (plain_sheet 10 10 False))
       [new_sprite 0 6 6, new_sprite 1 4 4, new_sprite 2 4 6, new_sprite 3 6 4]))) \<and>
   Rect 4 6 6 4 \<notin> set (map box (placed_of (MaxRects_add (plain_sheet 10 10 False)
       (MaxRects_clear (plain_sheet 10 10 False))
       [new_sprite 0 6 6, new_sprite 1 4 4, new_sprite 2 4 6, new_sprite 3 6 4])))"
  by code_simp

section \<open>Validation in place\<close>

text \<open>
  Claim C5, amended. \<^verbatim>\<open>MaxRectsLayout.place\<close>, called with the rotation flag that the
  sprite has, as \<^verbatim>\<open>Layout.add\<close> calls it with the choice of \<^verbatim>\<open>get_best\<close>, moves the
  sprite to the position; it returns true exactly when \<^verbatim>\<open>sheet.check\<close> accepts the
  resulting placement; when it returns false the layout is unchanged, and when it returns
  true the free list is the split and pruned one, of which no rectangle intersects the
  sprite. \<^verbatim>\<open>ShelfLayout.place\<close> does not call \<^verbatim>\<open>sheet.check\<close>: it always returns true,
  with the sprite in the orientation asked for at the end of the shelf it is given, the
  shelf grown by the sprite and the size of the layout raised to the bottom of the shelf.
\<close>

theorem place_validation:
  "(rot = rotated s \<longrightarrow>
      snd (snd (MaxRects_place sh st s pos rot)) =
        s\<lparr>box := (box s)\<lparr>rx := rx pos, ry := ry pos\<rparr>\<rparr> \<and>
      (fst (MaxRects_place sh st s pos rot) \<longleftrightarrow>
         check sh (box (snd (snd (MaxRects_place sh st s pos rot))))) \<and>
      (\<not> fst (MaxRects_place sh st s pos rot) \<longrightarrow>
         fst (snd (MaxRects_place sh st s pos rot)) = st) \<and>
      (fst (MaxRects_place sh st s pos rot) \<longrightarrow>
         free_rects (fst (snd (MaxRects_place sh st s pos rot))) =
           prune (split_loop (box (snd (snd (MaxRects_place sh st s pos rot))))
             (length (free_rects st)) (free_rects st)) \<and>
         (\<forall>f \<in> set (free_rects (fst (snd (MaxRects_place sh st s pos rot)))).
            \<not> intersects f (box (snd (snd (MaxRects_place sh st s pos rot))))))) \<and>
   (MaxRects_get_best sh st sprites = (sprites1, Some (i, p, r)) \<longrightarrow>
      r = rotated (sprites1 ! i)) \<and>
   fst (ShelfLayout_place st' s' pos' rot') \<and>
   rotated (snd (snd (ShelfLayout_place st' s' pos' rot'))) = rot' \<and>
   box (snd (snd (ShelfLayout_place st' s' pos' rot'))) =
     (box (if rotated s' \<noteq> rot' then sprite_rotate s' else s'))
       \<lparr>rx := shelf_size (chosen_shelf st' pos'), ry := shelf_start (chosen_shelf st' pos')\<rparr> \<and>
   shelves (fst (snd (ShelfLayout_place st' s' pos' rot'))) =
     put_shelf st' pos'
       ((chosen_shelf st' pos')
          \<lparr>shelf_rects := shelf_rects (chosen_shelf st' pos') @
                [snd (snd (ShelfLayout_place st' s' pos' rot'))],
            shelf_size := shelf_size (chosen_shelf st' pos') +
                rw (box (snd (snd (ShelfLayout_place st' s' pos' rot')))),
            shelf_max := max (shelf_max (chosen_shelf st' pos'))
                (rh (box (snd (snd (ShelfLayout_place st' s' pos' rot')))))\<rparr>) \<and>
   layout_size (fst (snd (ShelfLayout_place st' s' pos' rot'))) =
     max (layout_size st')
       (shelf_start (chosen_shelf st' pos') +
        max (shelf_max (chosen_shelf st' pos'))
          (rh (box (snd (snd (ShelfLayout_place st' s' pos' rot'))))))"
proof -
  have m: "snd (snd (MaxRects_place sh st s pos rot)) =
        s\<lparr>box := (box s)\<lparr>rx := rx pos, ry := ry pos\<rparr>\<rparr> \<and>
      (fst (MaxRects_place sh st s pos rot) \<longleftrightarrow>
         check sh (box (snd (snd (MaxRects_place sh st s pos rot))))) \<and>
      (\<not> fst (MaxRects_place sh st s pos rot) \<longrightarrow>
         fst (snd (MaxRects_place sh st s pos rot)) = st) \<and>
      (fst (MaxRects_place sh st s pos rot) \<longrightarrow>
         free_rects (fst (snd (MaxRects_place sh st s pos rot))) =
           prune (split_loop (box (snd (snd (MaxRects_place sh st s pos rot))))
             (length (free_rects st)) (free_rects st)) \<and>
         (\<forall>f \<in> set (free_rects (fst (snd (MaxRects_place sh st s pos rot)))).
            \<not> intersects f (box (snd (snd (MaxRects_place sh st s pos rot))))))"
    if r: "rot = rotated s"
  proof -
    have 1: "snd (snd (MaxRects_place sh st s pos rot)) =
        s\<lparr>box := (box s)\<lparr>rx := rx pos, ry := ry pos\<rparr>\<rparr>"
      using r by (simp add: MaxRects_place_def Let_def)
    have 2: "fst (MaxRects_place sh st s pos rot) \<longleftrightarrow>
         check sh (box (snd (snd (MaxRects_place sh st s pos rot))))"
      unfolding 1 by (simp add: MaxRects_place_def Let_def)
    have 3: "fst (snd (MaxRects_place sh st s pos rot)) = st"
      if "\<not> fst (MaxRects_place sh st s pos rot)"
      using that by (simp add: MaxRects_place_def Let_def split: if_splits)
    have 4: "free_rects (fst (snd (MaxRects_place sh st s pos rot))) =
           prune (split_loop (box (snd (snd (MaxRects_place sh st s pos rot))))
             (length (free_rects st)) (free_rects st))"
      if "fst (MaxRects_place sh st s pos rot)"
      using that by (simp add: MaxRects_place_def Let_def split: if_splits)
    have 5: "\<forall>f \<in> set (free_rects (fst (snd (MaxRects_place sh st s pos rot)))).
         \<not> intersects f (box (snd (snd (MaxRects_place sh st s pos rot))))"
      if "fst (MaxRects_place sh st s pos rot)"
    proof -
      have "MaxRects_place sh st s pos rot =
          (True, fst (snd (MaxRects_place sh st s pos rot)),
           snd (snd (MaxRects_place sh st s pos rot)))"
        using that by (cases "MaxRects_place sh st s pos rot") simp
      then have "\<forall>f \<in> set (free_rects (fst (snd (MaxRects_place sh st s pos rot)))).
          \<not> intersects f (box (snd (snd (MaxRects_place sh st s pos rot)))) \<and>
          (\<exists>g \<in> set (free_rects st). inside f g)"
        by (rule MaxRects_place_free)
      then show ?thesis by blast
    qed
    show ?thesis
      using 1 2 3 4 5 by blast
  qed
  have g: "r = rotated (sprites1 ! i)"
    if "MaxRects_get_best sh st sprites = (sprites1, Some (i, p, r))"
    using MaxRects_get_best_choice [OF that] by (simp add: good_choice_def)
  have s1: "fst (ShelfLayout_place st' s' pos' rot')"
    by (cases pos') (simp_all add: ShelfLayout_place_def Let_def split: prod.splits)
  have s2: "rotated (snd (snd (ShelfLayout_place st' s' pos' rot'))) = rot'"
    by (cases pos')
      (auto simp: ShelfLayout_place_def Shelf_place_def sprite_rotate_def Let_def)
  have s3: "box (snd (snd (ShelfLayout_place st' s' pos' rot'))) =
     (box (if rotated s' \<noteq> rot' then sprite_rotate s' else s'))
       \<lparr>rx := shelf_size (chosen_shelf st' pos'), ry := shelf_start (chosen_shelf st' pos')\<rparr>"
    by (cases pos')
      (simp_all add: ShelfLayout_place_def Shelf_place_def chosen_shelf_def Let_def)
  have s4: "shelves (fst (snd (ShelfLayout_place st' s' pos' rot'))) =
     put_shelf st' pos'
       ((chosen_shelf st' pos')
          \<lparr>shelf_rects := shelf_rects (chosen_shelf st' pos') @
                [snd (snd (ShelfLayout_place st' s' pos' rot'))],
            shelf_size := shelf_size (chosen_shelf st' pos') +
                rw (box (snd (snd (ShelfLayout_place st' s' pos' rot')))),
            shelf_max := max (shelf_max (chosen_shelf st' pos'))
                (rh (box (snd (snd (ShelfLayout_place st' s' pos' rot')))))\<rparr>)"
    by (cases pos')
      (simp_all add: ShelfLayout_place_def Shelf_place_def chosen_shelf_def put_shelf_def
        Let_def max_def)
  have s5: "layout_size (fst (snd (ShelfLayout_place st' s' pos' rot'))) =
     max (layout_size st')
       (shelf_start (chosen_shelf st' pos') +
        max (shelf_max (chosen_shelf st' pos'))
          (rh (box (snd (snd (ShelfLayout_place st' s' pos' rot'))))))"
    by (cases pos')
      (simp_all add: ShelfLayout_place_def Shelf_place_def chosen_shelf_def Let_def max_def)
  show ?thesis
    using m g s1 s2 s3 s4 s5 by blast
qed

text \<open>The theorem on the cleared 10 x 10 bin, where a 5 x 5 sprite is refused at (20,0) and
  placed at (0,0), and on a shelf that holds a 3 x 2 sprite and is given a 2 x 1 sprite.\<close>

theorem place_validation_witness:
  "False = rotated (new_sprite 0 5 5) \<and>
   \<not> fst (MaxRects_place (plain_sheet 10 10 False) (MaxRects_clear (plain_sheet 10 10 False))
       (new_sprite 0 5 5) (Rect 5 5 20 0) False) \<and>
   \<not> check (plain_sheet 10 10 False) (box (placed_at 0 5 5 20 0 False)) \<and>
   fst (snd (MaxRects_place (plain_sheet 10 10 False) (MaxRects_clear (plain_sheet 10 10 False))
       (new_sprite 0 5 5) (Rect 5 5 20 0) False)) = MaxRects_clear (plain_sheet 10 10 False) \<and>
   MaxRects_place (plain_sheet 10 10 False) (MaxRects_clear (plain_sheet 10 10 False))
       (new_sprite 0 5 5) (Rect 5 5 0 0) False =
     (True, \<lparr>used_rects = [], free_rects = [Rect 10 5 0 5, Rect 5 10 5 0],
              debug_image_count = 0\<rparr>, placed_at 0 5 5 0 0 False) \<and>
   check (plain_sheet 10 10 False) (box (placed_at 0 5 5 0 0 False)) \<and>
   \<not> intersects (Rect 10 5 0 5) (box (placed_at 0 5 5 0 0 False)) \<and>
   \<not> intersects (Rect 5 10 5 0) (box (placed_at 0 5 5 0 0 False)) \<and>
   MaxRects_get_best (plain_sheet 10 10 False) (MaxRects_clear (plain_sheet 10 10 False))
       [new_sprite 0 5 5] = ([new_sprite 0 5 5], Some (0, Rect 5 5 0 0, False)) \<and>
   False = rotated ([new_sprite 0 5 5] ! 0) \<and>
   ShelfLayout_place
       \<lparr>layout_size = 2,
          shelves = [\<lparr>shelf_start = 0, shelf_size = 3, shelf_max = 2,
                       shelf_rects = [placed_at 0 3 2 0 0 False]\<rparr>]\<rparr>
       (new_sprite 1 2 1) (Existing 0) False =
     (True,
      \<lparr>layout_size = 2,
         shelves = [\<lparr>shelf_start = 0, shelf_size = 5, shelf_max = 2,
                      shelf_rects = [placed_at 0 3 2 0 0 False, placed_at 1 2 1 3 0 False]\<rparr>]\<rparr>,
      placed_at 1 2 1 3 0 False) \<and>
   box (placed_at 1 2 1 3 0 False) = (box (new_sprite 1 2 1))\<lparr>rx := 3, ry := 0\<rparr>"
proof -
  define sh where "sh = plain_sheet 10 10 False"
  define st1 where "st1 = \<lparr>used_rects = [], free_rects = [Rect 10 5 0 5, Rect 5 10 5 0],
      debug_image_count = 0\<rparr>"
  define sf where "sf = \<lparr>shelf_start = 0, shelf_size = 3, shelf_max = 2,
      shelf_rects = [placed_at 0 3 2 0 0 False]\<rparr>"
  define sl where "sl = \<lparr>layout_size = 2, shelves = [sf]\<rparr>"
  define sf1 where "sf1 = \<lparr>shelf_start = 0, shelf_size = 5, shelf_max = 2,
      shelf_rects = [placed_at 0 3 2 0 0 False, placed_at 1 2 1 3 0 False]\<rparr>"
  define sl1 where "sl1 = \<lparr>layout_size = 2, shelves = [sf1]\<rparr>"
  have r: "False = rotated (new_sprite 0 5 5)"
    by (simp add: new_sprite_def)
  have a: "MaxRects_place sh (MaxRects_clear sh) (new_sprite 0 5 5) (Rect 5 5 20 0) False =
      (False, MaxRects_clear sh, placed_at 0 5 5 20 0 False)"
    unfolding sh_def by code_simp
  have b: "MaxRects_place sh (MaxRects_clear sh) (new_sprite 0 5 5) (Rect 5 5 0 0) False =
      (True, st1, placed_at 0 5 5 0 0 False)"
    unfolding sh_def st1_def by code_simp
  have f: "free_rects st1 = [Rect 10 5 0 5, Rect 5 10 5 0]"
    by (simp add: st1_def)
  have g: "MaxRects_get_best sh (MaxRects_clear sh) [new_sprite 0 5 5] =
      ([new_sprite 0 5 5], Some (0, Rect 5 5 0 0, False))"
    unfolding sh_def by code_simp
  have c: "ShelfLayout_place sl (new_sprite 1 2 1) (Existing 0) False =
      (True, sl1, placed_at 1 2 1 3 0 False)"
    unfolding sl_def sl1_def sf_def sf1_def by code_simp
  have k: "chosen_shelf sl (Existing 0) = sf" "shelf_size sf = 3" "shelf_start sf = 0"
    "rotated (new_sprite 1 2 1) = False"
    by (simp_all add: chosen_shelf_def sl_def sf_def new_sprite_def)
  note ta = place_validation [of False "new_sprite 0 5 5" sh "MaxRects_clear sh" "Rect 5 5 20 0",
      unfolded a fst_conv snd_conv]
  note tb = place_validation [of False "new_sprite 0 5 5" sh "MaxRects_clear sh" "Rect 5 5 0 0"
      "[new_sprite 0 5 5]" "[new_sprite 0 5 5]" 0 "Rect 5 5 0 0" False
      sl "new_sprite 1 2 1" "Existing 0" False, unfolded b c fst_conv snd_conv]
  have a1: "\<not> fst (MaxRects_place sh (MaxRects_clear sh) (new_sprite 0 5 5) (Rect 5 5 20 0) False)"
    using a by simp
  have a2: "\<not> check sh (box (placed_at 0 5 5 20 0 False))"
    using ta r by blast
  have a3: "fst (snd (MaxRects_place sh (MaxRects_clear sh) (new_sprite 0 5 5) (Rect 5 5 20 0)
      False)) = MaxRects_clear sh"
    using a by simp
  have b1: "check sh (box (placed_at 0 5 5 0 0 False))"
    using tb r by blast
  have b2: "\<forall>f \<in> set (free_rects st1). \<not> intersects f (box (placed_at 0 5 5 0 0 False))"
    using tb r by blast
  have b3: "\<not> intersects (Rect 10 5 0 5) (box (placed_at 0 5 5 0 0 False))"
    "\<not> intersects (Rect 5 10 5 0) (box (placed_at 0 5 5 0 0 False))"
    using b2 f by simp_all
  have c1: "box (placed_at 1 2 1 3 0 False) = (box (new_sprite 1 2 1))\<lparr>rx := 3, ry := 0\<rparr>"
    using tb k by simp
  have g1: "False = rotated ([new_sprite 0 5 5] ! 0)"
    using tb g by blast
  show ?thesis
    using r a1 [unfolded sh_def] a2 [unfolded sh_def] a3 [unfolded sh_def]
      b [unfolded sh_def st1_def] b1 [unfolded sh_def] b3 g [unfolded sh_def]
      c [unfolded sl_def sl1_def sf_def sf1_def] c1 g1
    by blast
qed

text \<open>
  Claim C5 as stated fails. \<^verbatim>\<open>ShelfLayout.place\<close>, called as the driver calls it on the
  bin of width 4 and height 10 for the sprite 3 x 8 that \<^verbatim>\<open>get_best\<close> has rotated,
  returns true for a placement that \<^verbatim>\<open>sheet.check\<close> rejects. \<^verbatim>\<open>MaxRectsLayout.place\<close>,
  called on the same bin for the unrotated sprite 3 x 8 with the rotation flag set, checks
  the sprite before it rotates it and returns true for the placement 8 x 3 at (0,0), which
  \<^verbatim>\<open>sheet.check\<close> rejects.
\<close>

theorem place_counterexample:
  "ShelfLayout_get_best (plain_sheet 4 10 True) ShelfLayout_clear [new_sprite 0 3 8] =
     ([placed_at 0 8 3 0 0 True], Some (0, Fresh (Shelf 0), True)) \<and>
   fst (ShelfLayout_place ShelfLayout_clear (placed_at 0 8 3 0 0 True) (Fresh (Shelf 0)) True) \<and>
   \<not> check (plain_sheet 4 10 True)
       (box (snd (snd (ShelfLayout_place ShelfLayout_clear (placed_at 0 8 3 0 0 True)
          (Fresh (Shelf 0)) True)))) \<and>
   MaxRects_place (plain_sheet 4 10 True) (MaxRects_clear (plain_sheet 4 10 True))
       (new_sprite 0 3 8) (Rect 3 8 0 0) True =
     (True, \<lparr>used_rects = [], free_rects = [Rect 4 7 0 3], debug_image_count = 0\<rparr>,
      placed_at 0 8 3 0 0 True) \<and>
   \<not> check (plain_sheet 4 10 True) (box (placed_at 0 8 3 0 0 True))"
  by code_simp

section \<open>Exceptions\<close>

text \<open>
  Claim C6 at a failing input. On the 10 x 10 bin with rotation allowed, the first
  \<^verbatim>\<open>StackLayout.add\<close> of a 3 x 4 sprite opens a stack and returns true; the second one
  enters the loop over the stacks with \<^verbatim>\<open>h > w\<close> and raises \<^verbatim>\<open>NameError\<close> on the
  undefined name \<^verbatim>\<open>sh\<close>.
\<close>

theorem stack_add_raises_NameError:
  "StackLayout_add (plain_sheet 10 10 True) StackLayout_clear (new_sprite 0 3 4) =
     Inr (True,
          \<lparr>stacks_size = 3,
             stacks = [\<lparr>stack_start = 0, stack_size = 4, stack_max = 3,
                        stack_rects = [placed_at 0 3 4 0 0 False]\<rparr>]\<rparr>,
          placed_at 0 3 4 0 0 False) \<and>
   StackLayout_add (plain_sheet 10 10 True)
     \<lparr>stacks_size = 3,
        stacks = [\<lparr>stack_start = 0, stack_size = 4, stack_max = 3,
                   stack_rects = [placed_at 0 3 4 0 0 False]\<rparr>]\<rparr>
     (new_sprite 1 3 4) = Inl NameError"
  by code_simp

section \<open>The MaxRects free list\<close>

text \<open>
  Claim C7, amended. Starting from a cleared MaxRects layout, after any sequence of calls
  of \<^verbatim>\<open>place\<close> no rectangle of \<^verbatim>\<open>free_rects\<close> intersects a sprite that one of the
  calls has placed; \<^verbatim>\<open>used_rects\<close> is still the empty list, since no method adds to it.
\<close>

theorem free_rects_avoid_placed:
  assumes "MaxRects_places sh (MaxRects_clear sh) calls = (st, ps)"
  shows "used_rects st = [] \<and>
     (\<forall>p \<in> set ps. \<forall>f \<in> set (free_rects st). \<not> intersects f (box p))"
proof -
  have "used_rects st = used_rects (MaxRects_clear sh)"
    using MaxRects_places_free [OF assms] by blast
  then have "used_rects st = []"
    by (simp add: MaxRects_clear_def)
  moreover have "\<forall>p \<in> set ps. \<forall>f \<in> set (free_rects st). \<not> intersects f (box p)"
    using MaxRects_places_free [OF assms] by blast
  ultimately show ?thesis by blast
qed

text \<open>The theorem on two calls of \<^verbatim>\<open>place\<close> on the cleared 10 x 10 bin.\<close>

theorem free_rects_avoid_placed_witness:
  "MaxRects_places (plain_sheet 10 10 False) (MaxRects_clear (plain_sheet 10 10 False))
     [(new_sprite 0 6 6, Rect 6 6 0 0, False), (new_sprite 1 4 6, Rect 4 6 6 0, False)] =
     (\<lparr>used_rects = [], free_rects = [Rect 10 4 0 6], debug_image_count = 0\<rparr>,
      [placed_at 0 6 6 0 0 False, placed_at 1 4 6 6 0 False]) \<and>
   used_rects \<lparr>used_rects = [], free_rects = [Rect 10 4 0 6], debug_image_count = 0\<rparr> = [] \<and>
   \<not> intersects (Rect 10 4 0 6) (box (placed_at 0 6 6 0 0 False)) \<and>
   \<not> intersects (Rect 10 4 0 6) (box (placed_at 1 4 6 6 0 False))"
proof -
  have e: "MaxRects_places (plain_sheet 10 10 False) (MaxRects_clear (plain_sheet 10 10 False))
     [(new_sprite 0 6 6, Rect 6 6 0 0, False), (new_sprite 1 4 6, Rect 4 6 6 0, False)] =
     (\<lparr>used_rects = [], free_rects = [Rect 10 4 0 6], debug_image_count = 0\<rparr>,
      [placed_at 0 6 6 0 0 False, placed_at 1 4 6 6 0 False])"
    by code_simp
  show ?thesis
    using free_rects_avoid_placed [OF e] e by simp
qed

text \<open>
  Claim C7 as stated fails in its first part: \<^verbatim>\<open>used_rects\<close> does not record the
  placed sprites. After the successful placement of a 5 x 5 sprite at (0,0) in the 10 x 10
  bin, \<^verbatim>\<open>used_rects\<close> is empty.
\<close>

theorem used_rects_counterexample:
  "MaxRects_place (plain_sheet 10 10 False) (MaxRects_clear (plain_sheet 10 10 False))
     (new_sprite 0 5 5) (Rect 5 5 0 0) False =
   (True, \<lparr>used_rects = [], free_rects = [Rect 10 5 0 5, Rect 5 10 5 0],
            debug_image_count = 0\<rparr>, placed_at 0 5 5 0 0 False) \<and>
   box (placed_at 0 5 5 0 0 False) \<notin> set (used_rects
     \<lparr>used_rects = [], free_rects = [Rect 10 5 0 5, Rect 5 10 5 0], debug_image_count = 0\<rparr>)"
  by code_simp

text \<open>
  Claim C8. On a sheet of non-negative size, after any sequence of calls of \<^verbatim>\<open>place\<close> on
  a cleared MaxRects layout and one more call that returns true, no entry of
  \<^verbatim>\<open>free_rects\<close> is contained in an entry at another position of the list, and no
  rectangle occurs in \<^verbatim>\<open>free_rects\<close> more than once. Every rectangle that the split has
  produced, and that no different rectangle produced by the split contains, occurs in
  \<^verbatim>\<open>free_rects\<close> exactly once: of such a rectangle the pruning neither keeps two copies
  nor removes all of them. The list that the split hands to the pruning holds no
  rectangle twice.
\<close>

theorem pruning_keeps_one_copy:
  assumes "0 \<le> fst (sheet_size sh)" "0 \<le> snd (sheet_size sh)"
    and "MaxRects_places sh (MaxRects_clear sh) calls = (st, ps)"
    and "MaxRects_place sh st s pos rot = (True, st1, s1)"
  shows "(\<forall>i < length (free_rects st1). \<forall>j < length (free_rects st1).
           i \<noteq> j \<longrightarrow> \<not> contains (free_rects st1 ! i) (free_rects st1 ! j)) \<and>
         (\<forall>v. count_list (free_rects st1) v \<le> 1) \<and>
         (\<forall>v \<in> set (split_loop (box s1) (length (free_rects st)) (free_rects st)).
            (\<forall>g \<in> set (split_loop (box s1) (length (free_rects st)) (free_rects st)).
               g \<noteq> v \<longrightarrow> \<not> contains g v) \<longrightarrow>
            count_list (free_rects st1) v = 1) \<and>
         distinct (split_loop (box s1) (length (free_rects st)) (free_rects st))"
proof -
  define fs1 where "fs1 = split_loop (box s1) (length (free_rects st)) (free_rects st)"
  have ok: "free_ok (free_rects st)" and d1: "distinct fs1"
    using no_duplicates_from_clear [OF assms(1-3)] unfolding fs1_def by blast+
  have nn: "\<forall>f \<in> set (free_rects st). 0 \<le> rw f \<and> 0 \<le> rh f"
    using ok by (simp add: free_ok_def)
  have e: "free_rects st1 = prune fs1"
    using assms(4) unfolding fs1_def
    by (auto simp: MaxRects_place_def Let_def split: if_splits)
  have "free_ok (prune fs1)"
    unfolding fs1_def by (rule free_ok_prune) (rule split_loop_size [OF nn])
  then have d2: "distinct (free_rects st1)"
    using e by (simp add: free_ok_def)
  have a: "\<not> contains (free_rects st1 ! i) (free_rects st1 ! j)"
    if "i < length (free_rects st1)" "j < length (free_rects st1)" "i \<noteq> j" for i j
    using that e prune_no_containment [of i fs1 j] by simp
  have b: "count_list (free_rects st1) v \<le> 1" for v
    using d2 by (simp add: count_list_distinct)
  have c: "count_list (free_rects st1) v = 1"
    if "v \<in> set fs1" "\<forall>g \<in> set fs1. g \<noteq> v \<longrightarrow> \<not> contains g v" for v
  proof -
    have "v \<in> set (prune fs1)"
      using d1 that by (rule prune_keeps_maximal)
    then show ?thesis
      using d2 e by (simp add: count_list_distinct)
  qed
  show ?thesis
    using a b c d1 unfolding fs1_def by blast
qed

text \<open>The theorem on the 6 x 6 bin, after a 5 x 2 sprite at (0,0), for a 1 x 3 sprite at
  (5,0): the split produces three rectangles, and the pruning removes the first one, which
  the second one contains.\<close>

theorem pruning_keeps_one_copy_witness:
  "0 \<le> fst (sheet_size (plain_sheet 6 6 False)) \<and>
   0 \<le> snd (sheet_size (plain_sheet 6 6 False)) \<and>
   MaxRects_places (plain_sheet 6 6 False) (MaxRects_clear (plain_sheet 6 6 False))
     [(new_sprite 0 5 2, Rect 5 2 0 0, False)] =
     (\<lparr>used_rects = [], free_rects = [Rect 6 4 0 2, Rect 1 6 5 0], debug_image_count = 0\<rparr>,
      [placed_at 0 5 2 0 0 False]) \<and>
   split_loop (box (placed_at 1 1 3 5 0 False)) 2 [Rect 6 4 0 2, Rect 1 6 5 0] =
     [Rect 1 3 5 3, Rect 6 3 0 3, Rect 5 4 0 2] \<and>
   MaxRects_place (plain_sheet 6 6 False)
     \<lparr>used_rects = [], free_rects = [Rect 6 4 0 2, Rect 1 6 5 0], debug_image_count = 0\<rparr>
     (new_sprite 1 1 3) (Rect 1 3 5 0) False =
     (True, \<lparr>used_rects = [], free_rects = [Rect 6 3 0 3, Rect 5 4 0 2],
              debug_image_count = 0\<rparr>, placed_at 1 1 3 5 0 False) \<and>
   \<not> contains (Rect 6 3 0 3) (Rect 5 4 0 2) \<and>
   \<not> contains (Rect 5 4 0 2) (Rect 6 3 0 3) \<and>
   count_list [Rect 6 3 0 3, Rect 5 4 0 2] (Rect 1 3 5 3) \<le> 1 \<and>
   count_list [Rect 6 3 0 3, Rect 5 4 0 2] (Rect 6 3 0 3) = 1 \<and>
   count_list [Rect 6 3 0 3, Rect 5 4 0 2] (Rect 5 4 0 2) = 1 \<and>
   distinct [Rect 1 3 5 3, Rect 6 3 0 3, Rect 5 4 0 2]"
proof -
  define sh where "sh = plain_sheet 6 6 False"
  define st where "st = \<lparr>used_rects = [], free_rects = [Rect 6 4 0 2, Rect 1 6 5 0],
      debug_image_count = 0\<rparr>"
  define st1 where "st1 = \<lparr>used_rects = [], free_rects = [Rect 6 3 0 3, Rect 5 4 0 2],
      debug_image_count = 0\<rparr>"
  define fs1 where "fs1 = [Rect 1 3 5 3, Rect 6 3 0 3, Rect 5 4 0 2]"
  have z: "0 \<le> fst (sheet_size sh)" "0 \<le> snd (sheet_size sh)"
    by (simp_all add: sh_def plain_sheet_def)
  have e: "MaxRects_places sh (MaxRects_clear sh) [(new_sprite 0 5 2, Rect 5 2 0 0, False)] =
      (st, [placed_at 0 5 2 0 0 False])"
    unfolding sh_def st_def by code_simp
  have p: "MaxRects_place sh st (new_sprite 1 1 3) (Rect 1 3 5 0) False =
      (True, st1, placed_at 1 1 3 5 0 False)"
    unfolding sh_def st_def st1_def by code_simp
  have s2: "split_loop (box (placed_at 1 1 3 5 0 False)) 2 [Rect 6 4 0 2, Rect 1 6 5 0] =
      [Rect 1 3 5 3, Rect 6 3 0 3, Rect 5 4 0 2]"
    by code_simp
  have s: "split_loop (box (placed_at 1 1 3 5 0 False)) (length (free_rects st)) (free_rects st) =
      fs1"
    unfolding st_def fs1_def by code_simp
  have l: "length (free_rects st1) = 2" "free_rects st1 ! 0 = Rect 6 3 0 3"
    "free_rects st1 ! 1 = Rect 5 4 0 2"
    by (simp_all add: st1_def)
  have f: "free_rects st1 = [Rect 6 3 0 3, Rect 5 4 0 2]"
    by (simp add: st1_def)
  have m1: "\<forall>g \<in> set fs1. g \<noteq> Rect 6 3 0 3 \<longrightarrow> \<not> contains g (Rect 6 3 0 3)"
    unfolding fs1_def by code_simp
  have m2: "\<forall>g \<in> set fs1. g \<noteq> Rect 5 4 0 2 \<longrightarrow> \<not> contains g (Rect 5 4 0 2)"
    unfolding fs1_def by code_simp
  have i: "Rect 6 3 0 3 \<in> set fs1" "Rect 5 4 0 2 \<in> set fs1"
    by (simp_all add: fs1_def)
  note t = pruning_keeps_one_copy [OF z e p, unfolded s]
  have c: "\<forall>i < length (free_rects st1). \<forall>j < length (free_rects st1).
      i \<noteq> j \<longrightarrow> \<not> contains (free_rects st1 ! i) (free_rects st1 ! j)"
    using t by blast
  have c01: "\<not> contains (Rect 6 3 0 3) (Rect 5 4 0 2)"
    using c [rule_format, of 0 1] l by simp
  have c10: "\<not> contains (Rect 5 4 0 2) (Rect 6 3 0 3)"
    using c [rule_format, of 1 0] l by simp
  have k0: "count_list (free_rects st1) (Rect 1 3 5 3) \<le> 1"
    using t by blast
  have k1: "count_list (free_rects st1) (Rect 6 3 0 3) = 1"
    using t i(1) m1 by blast
  have k2: "count_list (free_rects st1) (Rect 5 4 0 2) = 1"
    using t i(2) m2 by blast
  have d: "distinct fs1"
    using t by blast
  show ?thesis
    using z [unfolded sh_def] e [unfolded sh_def st_def] s2 p [unfolded sh_def st_def st1_def]
      c01 c10 k0 [unfolded f] k1 [unfolded f] k2 [unfolded f] d [unfolded fs1_def]
    by blast
qed

section \<open>Sprites that are too large\<close>

text \<open>
  Claim C9 at a failing input, scenario S3 on the shelf strategy. The sprite 4 x 10 fits
  the 10 x 4 bin when it is rotated, and the sheet allows rotation.
  \<^verbatim>\<open>ShelfLayout.add\<close> leaves it in \<^verbatim>\<open>remain\<close>: the size guard of \<^verbatim>\<open>get_best\<close> looks at
  the orientation that the sprite has, before the rotation for a new shelf.
  \<^verbatim>\<open>StackLayout.add\<close> returns false for it in the same way. \<^verbatim>\<open>MaxRectsLayout.add\<close>
  rotates the sprite to 10 x 4 and places it at (0,0).
\<close>

theorem rotatable_sprite_left_in_remain:
  "fits (plain_sheet 10 4 True) 10 4 \<and>
   ShelfLayout_add (plain_sheet 10 4 True) ShelfLayout_clear [new_sprite 0 4 10] =
     Some (Inr (ShelfLayout_clear, [], [new_sprite 0 4 10])) \<and>
   StackLayout_add (plain_sheet 10 4 True) StackLayout_clear (new_sprite 0 4 10) =
     Inr (False, StackLayout_clear, new_sprite 0 4 10) \<and>
   MaxRects_add (plain_sheet 10 4 True) (MaxRects_clear (plain_sheet 10 4 True))
       [new_sprite 0 4 10] =
     Some (Inr (\<lparr>used_rects = [], free_rects = [], debug_image_count = 0\<rparr>,
       [placed_at 0 10 4 0 0 True], []))"
  by code_simp

section \<open>Termination of the driver\<close>

text \<open>
  Claim C10. The loop of \<^verbatim>\<open>Layout.add\<close> terminates for the two strategies that use it:
  with a bound of at least \<open>length remain\<close> runs of its body it returns, without an
  exception, and a larger bound changes nothing. A run of the body that does not leave
  the loop removes exactly one sprite from \<^verbatim>\<open>remain\<close>.
\<close>

theorem Layout_add_terminates:
  assumes "length remain \<le> n"
  shows "(\<exists>res. add_loop (MaxRects_get_best sh) (MaxRects_place sh) n st placed remain =
            Some (Inr res)) \<and>
         (\<exists>res. add_loop (ShelfLayout_get_best sh) ShelfLayout_place n st' placed remain =
            Some (Inr res)) \<and>
         add_loop (MaxRects_get_best sh) (MaxRects_place sh) n st placed remain =
           add_loop (MaxRects_get_best sh) (MaxRects_place sh) (length remain) st placed remain \<and>
         add_loop (ShelfLayout_get_best sh) ShelfLayout_place n st' placed remain =
           add_loop (ShelfLayout_get_best sh) ShelfLayout_place (length remain) st' placed remain \<and>
         (\<forall>st1 placed1 remain1.
            add_body (MaxRects_get_best sh) (MaxRects_place sh) st placed remain =
              Continue st1 placed1 remain1 \<longrightarrow>
            Suc (length remain1) = length remain \<and> length placed1 = Suc (length placed)) \<and>
         (\<forall>st1 placed1 remain1.
            add_body (ShelfLayout_get_best sh) ShelfLayout_place st' placed remain =
              Continue st1 placed1 remain1 \<longrightarrow>
            Suc (length remain1) = length remain \<and> length placed1 = Suc (length placed))"
proof -
  have m: "length (fst (MaxRects_get_best sh st r)) = length r" for st r
    by (rule MaxRects_get_best_length)
  have s: "length (fst (ShelfLayout_get_best sh st r)) = length r" for st r
    by (rule ShelfLayout_get_best_length)
  have "\<exists>res. add_loop (MaxRects_get_best sh) (MaxRects_place sh) n st placed remain =
      Some (Inr res)"
    using assms by (intro add_loop_returns_normally m MaxRects_get_best_index)
  moreover have "\<exists>res. add_loop (ShelfLayout_get_best sh) ShelfLayout_place n st' placed remain =
      Some (Inr res)"
    using assms by (intro add_loop_returns_normally s ShelfLayout_get_best_index)
  moreover have "add_loop (MaxRects_get_best sh) (MaxRects_place sh) n st placed remain =
      add_loop (MaxRects_get_best sh) (MaxRects_place sh) (length remain) st placed remain"
    using assms by (intro add_loop_fuel m)
  moreover have "add_loop (ShelfLayout_get_best sh) ShelfLayout_place n st' placed remain =
      add_loop (ShelfLayout_get_best sh) ShelfLayout_place (length remain) st' placed remain"
    using assms by (intro add_loop_fuel s)
  moreover have "Suc (length remain1) = length remain \<and> length placed1 = Suc (length placed)"
    if "add_body (MaxRects_get_best sh) (MaxRects_place sh) st placed remain =
      Continue st1 placed1 remain1" for st1 placed1 remain1
    using that by (intro add_body_Continue_length [of "MaxRects_get_best sh"] m)
  moreover have "Suc (length remain1) = length remain \<and> length placed1 = Suc (length placed)"
    if "add_body (ShelfLayout_get_best sh) ShelfLayout_place st' placed remain =
      Continue st1 placed1 remain1" for st1 placed1 remain1
    using that by (intro add_body_Continue_length [of "ShelfLayout_get_best sh"] s)
  ultimately show ?thesis by blast
qed

text \<open>The theorem on the 10 x 10 bin with two sprites: the first run of the body places the
  sprite 10 x 5 and leaves one sprite.\<close>

theorem Layout_add_terminates_witness:
  "length [new_sprite 0 3 3, new_sprite 1 10 5] \<le> 2 \<and>
   (\<exists>res. add_loop (MaxRects_get_best (plain_sheet 10 10 False))
      (MaxRects_place (plain_sheet 10 10 False)) 2 (MaxRects_clear (plain_sheet 10 10 False)) []
      [new_sprite 0 3 3, new_sprite 1 10 5] = Some (Inr res)) \<and>
   (\<exists>res. add_loop (ShelfLayout_get_best (plain_sheet 10 10 False)) ShelfLayout_place 2
      ShelfLayout_clear [] [new_sprite 0 3 3, new_sprite 1 10 5] = Some (Inr res)) \<and>
   add_body (MaxRects_get_best (plain_sheet 10 10 False))
      (MaxRects_place (plain_sheet 10 10 False)) (MaxRects_clear (plain_sheet 10 10 False)) []
      [new_sprite 0 3 3, new_sprite 1 10 5] =
     Continue \<lparr>used_rects = [], free_rects = [Rect 10 5 0 5], debug_image_count = 0\<rparr>
       [placed_at 1 10 5 0 0 False] [new_sprite 0 3 3] \<and>
   Suc (length [new_sprite 0 3 3]) = length [new_sprite 0 3 3, new_sprite 1 10 5]"
proof -
  have l: "length [new_sprite 0 3 3, new_sprite 1 10 5] \<le> 2"
    by simp
  have b: "add_body (MaxRects_get_best (plain_sheet 10 10 False))
      (MaxRects_place (plain_sheet 10 10 False)) (MaxRects_clear (plain_sheet 10 10 False)) []
      [new_sprite 0 3 3, new_sprite 1 10 5] =
     Continue \<lparr>used_rects = [], free_rects = [Rect 10 5 0 5], debug_image_count = 0\<rparr>
       [placed_at 1 10 5 0 0 False] [new_sprite 0 3 3]"
    by code_simp
  show ?thesis
    using Layout_add_terminates [OF l, of "plain_sheet 10 10 False"
        "MaxRects_clear (plain_sheet 10 10 False)" "[]" ShelfLayout_clear] b l
    by blast
qed

end
